theory Spec2Isabelle
  imports Main "HOL-Library.Monad_Syntax"
begin

section \<open>The insertion-ordered hash map of \<^verbatim>\<open>src/linked_hashmap.hpp\<close>\<close>

text \<open>
  The container \<^verbatim>\<open>sjtu::linked_hashmap<Key, T, Hash, Equal>\<close> keeps two structures over
  one set of heap nodes: a doubly-linked order list between two sentinel nodes, and a table
  of bucket chains. The model keeps the pointer structure of the source:

  \<^item> a \<^verbatim>\<open>Node*\<close> is an address (a natural number), \<^verbatim>\<open>nullptr\<close> is \<open>0\<close>;
  \<^item> the nodes live in a store \<open>nodes\<close> from addresses to node records; \<^verbatim>\<open>new Node\<close>
    takes the address after the last one handed out, \<^verbatim>\<open>delete\<close> removes the entry;
  \<^item> the container objects live in a second store \<open>lhms\<close>, indexed by the address of the
    object (\<^verbatim>\<open>this\<close>), because an iterator holds a pointer to its container and
    \<^verbatim>\<open>operator++\<close> reads \<^verbatim>\<open>map->tail\<close> through it;
  \<^item> a bucket chain (the singly-linked \<^verbatim>\<open>Bucket\<close> objects of one table slot, which
    nothing else points to) is the list of the node pointers it holds, first bucket first;
    the table is the list of its chains, \<open>None\<close> while \<^verbatim>\<open>table == nullptr\<close>;
  \<^item> \<^verbatim>\<open>size_t\<close> is \<open>nat\<close>: a table of \<open>2^61\<close> bucket pointers cannot be allocated, so
    no count or size of a run reaches the wrap-around of 64 bits;
  \<^item> \<^verbatim>\<open>Hash\<close> is a parameter \<open>H\<close> of the functions that hash, \<^verbatim>\<open>Equal\<close> is equality
    on keys (the default \<^verbatim>\<open>std::equal_to\<close>);
  \<^item> a function that dereferences a null or dangling pointer, reads the table out of
    range or divides by a table size of zero has no defined result in C++: the model
    returns \<open>None\<close> there, as it does for a loop that does not end. An exception is a
    value \<open>Inl e\<close> inside \<open>Some\<close>.
\<close>

subsection \<open>Data\<close>

type_synonym addr = nat

abbreviation nullptr :: addr where
  "nullptr \<equiv> 0"

record ('k, 'v) Node =
  data :: "('k \<times> 'v) option"
  prev :: addr
  nxt :: addr

record lhm =
  table :: "addr list list option"
  table_size :: nat
  element_count :: nat
  head :: addr
  tail :: addr

record iterator =
  it_node :: addr
  it_map :: addr

record const_iterator =
  cit_node :: addr
  cit_map :: addr

datatype error = invalid_iterator | index_out_of_bound

record ('k, 'v) world =
  nodes :: "addr \<rightharpoonup> ('k, 'v) Node"
  lhms :: "addr \<rightharpoonup> lhm"
  last_alloc :: addr

definition INITIAL_CAPACITY :: nat where
  "INITIAL_CAPACITY = 16"

text \<open>
  \<^verbatim>\<open>element_count >= table_size * LOAD_FACTOR\<close> with \<^verbatim>\<open>LOAD_FACTOR = 0.75\<close> compares two
  doubles; both sides are exact for sizes below \<open>2^53\<close>, where the test is
  \<open>3 * table_size \<le> 4 * element_count\<close>.
\<close>

definition load_factor_reached :: "lhm \<Rightarrow> bool" where
  "load_factor_reached m \<longleftrightarrow> 3 * table_size m \<le> 4 * element_count m"

subsection \<open>The node store\<close>

definition new_Node :: "('k \<times> 'v) option \<Rightarrow> ('k, 'v) world \<Rightarrow> addr \<times> ('k, 'v) world" where
  "new_Node d w =
     (let a = Suc (last_alloc w)
      in (a, w\<lparr>nodes := (nodes w)(a \<mapsto> \<lparr>data = d, prev = nullptr, nxt = nullptr\<rparr>),
               last_alloc := a\<rparr>))"

definition delete_Node :: "addr \<Rightarrow> ('k, 'v) world \<Rightarrow> ('k, 'v) world option" where
  "delete_Node p w =
     (case nodes w p of None \<Rightarrow> None
      | Some n \<Rightarrow> Some (w\<lparr>nodes := (nodes w)(p := None)\<rparr>))"

definition set_prev :: "addr \<Rightarrow> addr \<Rightarrow> ('k, 'v) world \<Rightarrow> ('k, 'v) world option" where
  "set_prev p v w =
     (case nodes w p of None \<Rightarrow> None
      | Some n \<Rightarrow> Some (w\<lparr>nodes := (nodes w)(p \<mapsto> n\<lparr>prev := v\<rparr>)\<rparr>))"

definition set_nxt :: "addr \<Rightarrow> addr \<Rightarrow> ('k, 'v) world \<Rightarrow> ('k, 'v) world option" where
  "set_nxt p v w =
     (case nodes w p of None \<Rightarrow> None
      | Some n \<Rightarrow> Some (w\<lparr>nodes := (nodes w)(p \<mapsto> n\<lparr>nxt := v\<rparr>)\<rparr>))"

definition set_lhm :: "addr \<Rightarrow> lhm \<Rightarrow> ('k, 'v) world \<Rightarrow> ('k, 'v) world" where
  "set_lhm this m w = w\<lparr>lhms := (lhms w)(this \<mapsto> m)\<rparr>"

subsection \<open>Private helpers\<close>

definition get_bucket_index :: "('k \<Rightarrow> nat) \<Rightarrow> lhm \<Rightarrow> 'k \<Rightarrow> nat option" where
  "get_bucket_index H m key =
     (if table_size m = 0 then None else Some (H key mod table_size m))"

definition init_table :: "addr \<Rightarrow> nat \<Rightarrow> ('k, 'v) world \<Rightarrow> ('k, 'v) world option" where
  "init_table this sz w = do {
     m \<leftarrow> lhms w this;
     Some (set_lhm this (m\<lparr>table_size := sz, table := Some (replicate sz [])\<rparr>) w)
   }"

definition clear_table :: "addr \<Rightarrow> ('k, 'v) world \<Rightarrow> ('k, 'v) world option" where
  "clear_table this w = do {
     m \<leftarrow> lhms w this;
     case table m of
       None \<Rightarrow> Some w
     | Some t \<Rightarrow>
         if table_size m \<le> length t then Some (set_lhm this (m\<lparr>table := None\<rparr>) w)
         else None
   }"

partial_function (option) clear_list_loop ::
  "addr \<Rightarrow> addr \<Rightarrow> ('k, 'v) world \<Rightarrow> ('k, 'v) world option" where
  "clear_list_loop this current w = do {
     m \<leftarrow> lhms w this;
     if current = tail m then Some w
     else do {
       n \<leftarrow> nodes w current;
       w' \<leftarrow> delete_Node current w;
       clear_list_loop this (nxt n) w'
     }
   }"

definition clear_list :: "addr \<Rightarrow> ('k, 'v) world \<Rightarrow> ('k, 'v) world option" where
  "clear_list this w = do {
     m \<leftarrow> lhms w this;
     hn \<leftarrow> nodes w (head m);
     w1 \<leftarrow> clear_list_loop this (nxt hn) w;
     w2 \<leftarrow> set_nxt (head m) (tail m) w1;
     set_prev (tail m) (head m) w2
   }"

partial_function (option) rehash_loop ::
  "('k \<Rightarrow> nat) \<Rightarrow> addr \<Rightarrow> ('k, 'v) world \<Rightarrow> nat \<Rightarrow> addr \<Rightarrow> addr list list
     \<Rightarrow> addr list list option" where
  "rehash_loop H this w new_size current new_table = do {
     m \<leftarrow> lhms w this;
     if current = tail m then Some new_table
     else do {
       n \<leftarrow> nodes w current;
       kv \<leftarrow> data n;
       if new_size = 0 then None
       else do {
         let index = H (fst kv) mod new_size;
         if index < length new_table
         then rehash_loop H this w new_size (nxt n)
                (new_table[index := current # new_table ! index])
         else None
       }
     }
   }"

definition rehash :: "('k \<Rightarrow> nat) \<Rightarrow> addr \<Rightarrow> ('k, 'v) world \<Rightarrow> ('k, 'v) world option" where
  "rehash H this w = do {
     m \<leftarrow> lhms w this;
     let new_size = table_size m * 2;
     let new_table = replicate new_size [];
     hn \<leftarrow> nodes w (head m);
     new_table' \<leftarrow> rehash_loop H this w new_size (nxt hn) new_table;
     w1 \<leftarrow> clear_table this w;
     m1 \<leftarrow> lhms w1 this;
     Some (set_lhm this (m1\<lparr>table := Some new_table', table_size := new_size\<rparr>) w1)
   }"

fun find_node_loop :: "(addr \<rightharpoonup> ('k, 'v) Node) \<Rightarrow> 'k \<Rightarrow> addr list \<Rightarrow> addr option" where
  "find_node_loop h key [] = Some nullptr"
| "find_node_loop h key (b # bucket) = do {
     n \<leftarrow> h b;
     kv \<leftarrow> data n;
     if fst kv = key then Some b else find_node_loop h key bucket
   }"

definition find_node :: "('k \<Rightarrow> nat) \<Rightarrow> addr \<Rightarrow> 'k \<Rightarrow> ('k, 'v) world \<Rightarrow> addr option" where
  "find_node H this key w = do {
     m \<leftarrow> lhms w this;
     index \<leftarrow> get_bucket_index H m key;
     t \<leftarrow> table m;
     if index < length t then find_node_loop (nodes w) key (t ! index) else None
   }"

definition insert_to_list :: "addr \<Rightarrow> addr \<Rightarrow> ('k, 'v) world \<Rightarrow> ('k, 'v) world option" where
  "insert_to_list this node w = do {
     m \<leftarrow> lhms w this;
     tn \<leftarrow> nodes w (tail m);
     w1 \<leftarrow> set_prev node (prev tn) w;
     w2 \<leftarrow> set_nxt node (tail m) w1;
     tn2 \<leftarrow> nodes w2 (tail m);
     w3 \<leftarrow> set_nxt (prev tn2) node w2;
     set_prev (tail m) node w3
   }"

definition remove_from_list :: "addr \<Rightarrow> ('k, 'v) world \<Rightarrow> ('k, 'v) world option" where
  "remove_from_list node w = do {
     n \<leftarrow> nodes w node;
     w1 \<leftarrow> set_nxt (prev n) (nxt n) w;
     n1 \<leftarrow> nodes w1 node;
     set_prev (nxt n1) (prev n1) w1
   }"

definition insert_to_table ::
  "('k \<Rightarrow> nat) \<Rightarrow> addr \<Rightarrow> addr \<Rightarrow> ('k, 'v) world \<Rightarrow> ('k, 'v) world option" where
  "insert_to_table H this node w = do {
     m \<leftarrow> lhms w this;
     n \<leftarrow> nodes w node;
     kv \<leftarrow> data n;
     index \<leftarrow> get_bucket_index H m (fst kv);
     t \<leftarrow> table m;
     if index < length t
     then Some (set_lhm this (m\<lparr>table := Some (t[index := node # t ! index])\<rparr>) w)
     else None
   }"

fun remove_from_table_loop ::
  "(addr \<rightharpoonup> ('k, 'v) Node) \<Rightarrow> 'k \<Rightarrow> addr list \<Rightarrow> addr list option" where
  "remove_from_table_loop h key [] = Some []"
| "remove_from_table_loop h key (b # bucket) = do {
     n \<leftarrow> h b;
     kv \<leftarrow> data n;
     if fst kv = key then Some bucket
     else do {
       r \<leftarrow> remove_from_table_loop h key bucket;
       Some (b # r)
     }
   }"

definition remove_from_table ::
  "('k \<Rightarrow> nat) \<Rightarrow> addr \<Rightarrow> 'k \<Rightarrow> ('k, 'v) world \<Rightarrow> ('k, 'v) world option" where
  "remove_from_table H this key w = do {
     m \<leftarrow> lhms w this;
     index \<leftarrow> get_bucket_index H m key;
     t \<leftarrow> table m;
     if index < length t
     then do {
       c \<leftarrow> remove_from_table_loop (nodes w) key (t ! index);
       Some (set_lhm this (m\<lparr>table := Some (t[index := c])\<rparr>) w)
     }
     else None
   }"

subsection \<open>Iterators\<close>

text \<open>
  \<^verbatim>\<open>iterator\<close> and \<^verbatim>\<open>const_iterator\<close> are two classes with the same two fields and the
  same operators. A postfix operator returns the old cursor (\<^verbatim>\<open>temp\<close>) and changes
  \<^verbatim>\<open>*this\<close>: the model returns the pair of both, \<^verbatim>\<open>temp\<close> first. The guard
  \<^verbatim>\<open>!node || node == map->tail\<close> reads \<^verbatim>\<open>map\<close> only when \<^verbatim>\<open>node\<close> is not null.
\<close>

text \<open>The default constructors \<^verbatim>\<open>iterator()\<close> and \<^verbatim>\<open>const_iterator()\<close>.\<close>

definition iterator_default :: iterator where
  "iterator_default = \<lparr>it_node = nullptr, it_map = nullptr\<rparr>"

definition const_iterator_default :: const_iterator where
  "const_iterator_default = \<lparr>cit_node = nullptr, cit_map = nullptr\<rparr>"

definition iterator_post_inc ::
  "('k, 'v) world \<Rightarrow> iterator \<Rightarrow> (error + iterator \<times> iterator) option" where
  "iterator_post_inc w it =
     (if it_node it = nullptr then Some (Inl invalid_iterator)
      else do {
        m \<leftarrow> lhms w (it_map it);
        if it_node it = tail m then Some (Inl invalid_iterator)
        else do {
          let temp = it;
          n \<leftarrow> nodes w (it_node it);
          Some (Inr (temp, it\<lparr>it_node := nxt n\<rparr>))
        }
      })"

definition iterator_pre_inc :: "('k, 'v) world \<Rightarrow> iterator \<Rightarrow> (error + iterator) option" where
  "iterator_pre_inc w it =
     (if it_node it = nullptr then Some (Inl invalid_iterator)
      else do {
        m \<leftarrow> lhms w (it_map it);
        if it_node it = tail m then Some (Inl invalid_iterator)
        else do {
          n \<leftarrow> nodes w (it_node it);
          Some (Inr (it\<lparr>it_node := nxt n\<rparr>))
        }
      })"

definition iterator_post_dec ::
  "('k, 'v) world \<Rightarrow> iterator \<Rightarrow> (error + iterator \<times> iterator) option" where
  "iterator_post_dec w it =
     (if it_node it = nullptr then Some (Inl invalid_iterator)
      else do {
        n \<leftarrow> nodes w (it_node it);
        m \<leftarrow> lhms w (it_map it);
        if prev n = head m then Some (Inl invalid_iterator)
        else do {
          let temp = it;
          n' \<leftarrow> nodes w (it_node it);
          Some (Inr (temp, it\<lparr>it_node := prev n'\<rparr>))
        }
      })"

definition iterator_pre_dec :: "('k, 'v) world \<Rightarrow> iterator \<Rightarrow> (error + iterator) option" where
  "iterator_pre_dec w it =
     (if it_node it = nullptr then Some (Inl invalid_iterator)
      else do {
        n \<leftarrow> nodes w (it_node it);
        m \<leftarrow> lhms w (it_map it);
        if prev n = head m then Some (Inl invalid_iterator)
        else do {
          n' \<leftarrow> nodes w (it_node it);
          Some (Inr (it\<lparr>it_node := prev n'\<rparr>))
        }
      })"

definition iterator_deref :: "('k, 'v) world \<Rightarrow> iterator \<Rightarrow> ('k \<times> 'v) option" where
  "iterator_deref w it = do { n \<leftarrow> nodes w (it_node it); data n }"

definition iterator_eq :: "iterator \<Rightarrow> iterator \<Rightarrow> bool" where
  "iterator_eq it rhs \<longleftrightarrow> it_node it = it_node rhs \<and> it_map it = it_map rhs"

definition iterator_eq_const :: "iterator \<Rightarrow> const_iterator \<Rightarrow> bool" where
  "iterator_eq_const it rhs \<longleftrightarrow> it_node it = cit_node rhs \<and> it_map it = cit_map rhs"

definition const_iterator_of :: "iterator \<Rightarrow> const_iterator" where
  "const_iterator_of other = \<lparr>cit_node = it_node other, cit_map = it_map other\<rparr>"

definition const_iterator_post_inc ::
  "('k, 'v) world \<Rightarrow> const_iterator \<Rightarrow> (error + const_iterator \<times> const_iterator) option" where
  "const_iterator_post_inc w it =
     (if cit_node it = nullptr then Some (Inl invalid_iterator)
      else do {
        m \<leftarrow> lhms w (cit_map it);
        if cit_node it = tail m then Some (Inl invalid_iterator)
        else do {
          let temp = it;
          n \<leftarrow> nodes w (cit_node it);
          Some (Inr (temp, it\<lparr>cit_node := nxt n\<rparr>))
        }
      })"

definition const_iterator_pre_inc ::
  "('k, 'v) world \<Rightarrow> const_iterator \<Rightarrow> (error + const_iterator) option" where
  "const_iterator_pre_inc w it =
     (if cit_node it = nullptr then Some (Inl invalid_iterator)
      else do {
        m \<leftarrow> lhms w (cit_map it);
        if cit_node it = tail m then Some (Inl invalid_iterator)
        else do {
          n \<leftarrow> nodes w (cit_node it);
          Some (Inr (it\<lparr>cit_node := nxt n\<rparr>))
        }
      })"

definition const_iterator_post_dec ::
  "('k, 'v) world \<Rightarrow> const_iterator \<Rightarrow> (error + const_iterator \<times> const_iterator) option" where
  "const_iterator_post_dec w it =
     (if cit_node it = nullptr then Some (Inl invalid_iterator)
      else do {
        n \<leftarrow> nodes w (cit_node it);
        m \<leftarrow> lhms w (cit_map it);
        if prev n = head m then Some (Inl invalid_iterator)
        else do {
          let temp = it;
          n' \<leftarrow> nodes w (cit_node it);
          Some (Inr (temp, it\<lparr>cit_node := prev n'\<rparr>))
        }
      })"

definition const_iterator_pre_dec ::
  "('k, 'v) world \<Rightarrow> const_iterator \<Rightarrow> (error + const_iterator) option" where
  "const_iterator_pre_dec w it =
     (if cit_node it = nullptr then Some (Inl invalid_iterator)
      else do {
        n \<leftarrow> nodes w (cit_node it);
        m \<leftarrow> lhms w (cit_map it);
        if prev n = head m then Some (Inl invalid_iterator)
        else do {
          n' \<leftarrow> nodes w (cit_node it);
          Some (Inr (it\<lparr>cit_node := prev n'\<rparr>))
        }
      })"

definition const_iterator_deref :: "('k, 'v) world \<Rightarrow> const_iterator \<Rightarrow> ('k \<times> 'v) option" where
  "const_iterator_deref w it = do { n \<leftarrow> nodes w (cit_node it); data n }"

definition const_iterator_eq :: "const_iterator \<Rightarrow> const_iterator \<Rightarrow> bool" where
  "const_iterator_eq it rhs \<longleftrightarrow> cit_node it = cit_node rhs \<and> cit_map it = cit_map rhs"

subsection \<open>Public operations\<close>

text \<open>
  A member function takes the address \<open>this\<close> of its object and the world, and returns its
  result with the world it leaves. A function that returns a reference \<^verbatim>\<open>T &\<close> to
  \<^verbatim>\<open>node->data->second\<close> returns the address of that node; \<open>value_at\<close> reads through it.
\<close>

definition linked_hashmap :: "addr \<Rightarrow> ('k, 'v) world \<Rightarrow> ('k, 'v) world option" where
  "linked_hashmap this w = do {
     let (h, w1) = new_Node None w;
     let (t, w2) = new_Node None w1;
     let w3 = set_lhm this
                \<lparr>table = None, table_size = 0, element_count = 0, head = h, tail = t\<rparr> w2;
     w4 \<leftarrow> set_nxt h t w3;
     w5 \<leftarrow> set_prev t h w4;
     init_table this INITIAL_CAPACITY w5
   }"

definition value_at :: "('k, 'v) world \<Rightarrow> addr \<Rightarrow> 'v option" where
  "value_at w node = do { n \<leftarrow> nodes w node; kv \<leftarrow> data n; Some (snd kv) }"

definition at :: "('k \<Rightarrow> nat) \<Rightarrow> addr \<Rightarrow> 'k \<Rightarrow> ('k, 'v) world \<Rightarrow> (error + addr) option" where
  "at H this key w = do {
     node \<leftarrow> find_node H this key w;
     if node = nullptr then Some (Inl index_out_of_bound)
     else do { _ \<leftarrow> value_at w node; Some (Inr node) }
   }"

definition at_const ::
  "('k \<Rightarrow> nat) \<Rightarrow> addr \<Rightarrow> 'k \<Rightarrow> ('k, 'v) world \<Rightarrow> (error + addr) option" where
  "at_const H this key w = do {
     node \<leftarrow> find_node H this key w;
     if node = nullptr then Some (Inl index_out_of_bound)
     else do { _ \<leftarrow> value_at w node; Some (Inr node) }
   }"

definition begin_lhm :: "addr \<Rightarrow> ('k, 'v) world \<Rightarrow> iterator option" where
  "begin_lhm this w = do {
     m \<leftarrow> lhms w this;
     hn \<leftarrow> nodes w (head m);
     Some \<lparr>it_node = nxt hn, it_map = this\<rparr>
   }"

definition cbegin :: "addr \<Rightarrow> ('k, 'v) world \<Rightarrow> const_iterator option" where
  "cbegin this w = do {
     m \<leftarrow> lhms w this;
     hn \<leftarrow> nodes w (head m);
     Some \<lparr>cit_node = nxt hn, cit_map = this\<rparr>
   }"

definition end_lhm :: "addr \<Rightarrow> ('k, 'v) world \<Rightarrow> iterator option" where
  "end_lhm this w = do { m \<leftarrow> lhms w this; Some \<lparr>it_node = tail m, it_map = this\<rparr> }"

definition cend :: "addr \<Rightarrow> ('k, 'v) world \<Rightarrow> const_iterator option" where
  "cend this w = do { m \<leftarrow> lhms w this; Some \<lparr>cit_node = tail m, cit_map = this\<rparr> }"

definition empty_lhm :: "addr \<Rightarrow> ('k, 'v) world \<Rightarrow> bool option" where
  "empty_lhm this w = do { m \<leftarrow> lhms w this; Some (element_count m = 0) }"

definition size_lhm :: "addr \<Rightarrow> ('k, 'v) world \<Rightarrow> nat option" where
  "size_lhm this w = do { m \<leftarrow> lhms w this; Some (element_count m) }"

definition clear :: "addr \<Rightarrow> ('k, 'v) world \<Rightarrow> ('k, 'v) world option" where
  "clear this w = do {
     w1 \<leftarrow> clear_list this w;
     m \<leftarrow> lhms w1 this;
     t \<leftarrow> table m;
     if table_size m \<le> length t
     then Some (set_lhm this
            (m\<lparr>table := Some (replicate (table_size m) [] @ drop (table_size m) t),
               element_count := 0\<rparr>) w1)
     else None
   }"

definition insert_lhm ::
  "('k \<Rightarrow> nat) \<Rightarrow> addr \<Rightarrow> 'k \<times> 'v \<Rightarrow> ('k, 'v) world
     \<Rightarrow> ((iterator \<times> bool) \<times> ('k, 'v) world) option" where
  "insert_lhm H this val w = do {
     existing \<leftarrow> find_node H this (fst val) w;
     if existing \<noteq> nullptr
     then Some ((\<lparr>it_node = existing, it_map = this\<rparr>, False), w)
     else do {
       m \<leftarrow> lhms w this;
       w1 \<leftarrow> (if load_factor_reached m then rehash H this w else Some w);
       let (new_node, w2) = new_Node (Some val) w1;
       w3 \<leftarrow> insert_to_list this new_node w2;
       w4 \<leftarrow> insert_to_table H this new_node w3;
       m4 \<leftarrow> lhms w4 this;
       Some ((\<lparr>it_node = new_node, it_map = this\<rparr>, True),
             set_lhm this (m4\<lparr>element_count := element_count m4 + 1\<rparr>) w4)
     }
   }"

text \<open>
  \<^verbatim>\<open>element_count--\<close> on a count of zero would wrap to \<open>2^64 - 1\<close>; it is reached only
  through a cursor at a live node, so with a count of at least one.
\<close>

definition erase ::
  "('k \<Rightarrow> nat) \<Rightarrow> addr \<Rightarrow> iterator \<Rightarrow> ('k, 'v) world
     \<Rightarrow> ((error + unit) \<times> ('k, 'v) world) option" where
  "erase H this pos w = do {
     m \<leftarrow> lhms w this;
     if it_map pos \<noteq> this \<or> it_node pos = tail m \<or> it_node pos = head m
        \<or> it_node pos = nullptr
     then Some (Inl invalid_iterator, w)
     else do {
       n \<leftarrow> nodes w (it_node pos);
       kv \<leftarrow> data n;
       w1 \<leftarrow> remove_from_table H this (fst kv) w;
       w2 \<leftarrow> remove_from_list (it_node pos) w1;
       w3 \<leftarrow> delete_Node (it_node pos) w2;
       m3 \<leftarrow> lhms w3 this;
       Some (Inr (), set_lhm this
                      (m3\<lparr>element_count := (if element_count m3 = 0 then 2 ^ 64 - 1
                                              else element_count m3 - 1)\<rparr>) w3)
     }
   }"

definition count_lhm :: "('k \<Rightarrow> nat) \<Rightarrow> addr \<Rightarrow> 'k \<Rightarrow> ('k, 'v) world \<Rightarrow> nat option" where
  "count_lhm H this key w = do {
     node \<leftarrow> find_node H this key w;
     Some (if node \<noteq> nullptr then 1 else 0)
   }"

definition find_lhm :: "('k \<Rightarrow> nat) \<Rightarrow> addr \<Rightarrow> 'k \<Rightarrow> ('k, 'v) world \<Rightarrow> iterator option" where
  "find_lhm H this key w = do {
     node \<leftarrow> find_node H this key w;
     if node \<noteq> nullptr then Some \<lparr>it_node = node, it_map = this\<rparr>
     else end_lhm this w
   }"

definition find_const ::
  "('k \<Rightarrow> nat) \<Rightarrow> addr \<Rightarrow> 'k \<Rightarrow> ('k, 'v) world \<Rightarrow> const_iterator option" where
  "find_const H this key w = do {
     node \<leftarrow> find_node H this key w;
     if node \<noteq> nullptr then Some \<lparr>cit_node = node, cit_map = this\<rparr>
     else cend this w
   }"

text \<open>\<^verbatim>\<open>operator[]\<close>: \<open>dflt\<close> is the value \<^verbatim>\<open>T()\<close>.\<close>

definition subscript ::
  "('k \<Rightarrow> nat) \<Rightarrow> 'v \<Rightarrow> addr \<Rightarrow> 'k \<Rightarrow> ('k, 'v) world \<Rightarrow> (addr \<times> ('k, 'v) world) option" where
  "subscript H dflt this key w = do {
     node \<leftarrow> find_node H this key w;
     if node = nullptr
     then do {
       let new_pair = (key, dflt);
       (result, w') \<leftarrow> insert_lhm H this new_pair w;
       _ \<leftarrow> value_at w' (it_node (fst result));
       Some (it_node (fst result), w')
     }
     else do { _ \<leftarrow> value_at w node; Some (node, w) }
   }"

definition subscript_const ::
  "('k \<Rightarrow> nat) \<Rightarrow> addr \<Rightarrow> 'k \<Rightarrow> ('k, 'v) world \<Rightarrow> ((error + addr) \<times> ('k, 'v) world) option" where
  "subscript_const H this key w = do {
     node \<leftarrow> find_node H this key w;
     if node = nullptr then Some (Inl index_out_of_bound, w)
     else do { _ \<leftarrow> value_at w node; Some (Inr node, w) }
   }"

text \<open>
  The copy loop of the copy constructor and of \<^verbatim>\<open>operator=\<close>: it walks the order list of
  \<open>other\<close> and inserts each pair into \<open>this\<close>, reading \<^verbatim>\<open>other.tail\<close> and
  \<^verbatim>\<open>current->next\<close> from the world the insertion left.
\<close>

partial_function (option) copy_loop ::
  "('k \<Rightarrow> nat) \<Rightarrow> addr \<Rightarrow> addr \<Rightarrow> addr \<Rightarrow> ('k, 'v) world \<Rightarrow> ('k, 'v) world option" where
  "copy_loop H this other current w = do {
     om \<leftarrow> lhms w other;
     if current = tail om then Some w
     else do {
       n \<leftarrow> nodes w current;
       kv \<leftarrow> data n;
       (r, w') \<leftarrow> insert_lhm H this kv w;
       n' \<leftarrow> nodes w' current;
       copy_loop H this other (nxt n') w'
     }
   }"

definition linked_hashmap_copy ::
  "('k \<Rightarrow> nat) \<Rightarrow> addr \<Rightarrow> addr \<Rightarrow> ('k, 'v) world \<Rightarrow> ('k, 'v) world option" where
  "linked_hashmap_copy H this other w = do {
     let (h, w1) = new_Node None w;
     let (t, w2) = new_Node None w1;
     let w3 = set_lhm this
                \<lparr>table = None, table_size = 0, element_count = 0, head = h, tail = t\<rparr> w2;
     w4 \<leftarrow> set_nxt h t w3;
     w5 \<leftarrow> set_prev t h w4;
     om \<leftarrow> lhms w5 other;
     w6 \<leftarrow> init_table this (table_size om) w5;
     om6 \<leftarrow> lhms w6 other;
     ohn \<leftarrow> nodes w6 (head om6);
     copy_loop H this other (nxt ohn) w6
   }"

definition assign ::
  "('k \<Rightarrow> nat) \<Rightarrow> addr \<Rightarrow> addr \<Rightarrow> ('k, 'v) world \<Rightarrow> ('k, 'v) world option" where
  "assign H this other w =
     (if this = other then Some w
      else do {
        w1 \<leftarrow> clear this w;
        w2 \<leftarrow> clear_table this w1;
        om \<leftarrow> lhms w2 other;
        w3 \<leftarrow> init_table this (table_size om) w2;
        om3 \<leftarrow> lhms w3 other;
        ohn \<leftarrow> nodes w3 (head om3);
        copy_loop H this other (nxt ohn) w3
      })"

subsection \<open>Walking a container\<close>

text \<open>
  The loop \<^verbatim>\<open>for (it = m.begin(); it != m.end(); ++it) out.push_back(*it);\<close> of a caller,
  built from the operators above.
\<close>

partial_function (option) iterate_loop ::
  "('k, 'v) world \<Rightarrow> iterator \<Rightarrow> iterator \<Rightarrow> ('k \<times> 'v) list \<Rightarrow> ('k \<times> 'v) list option" where
  "iterate_loop w it e out =
     (if iterator_eq it e then Some out
      else do {
        kv \<leftarrow> iterator_deref w it;
        r \<leftarrow> iterator_pre_inc w it;
        it' \<leftarrow> (case r of Inl _ \<Rightarrow> None | Inr i \<Rightarrow> Some i);
        iterate_loop w it' e (out @ [kv])
      })"

definition iterate :: "addr \<Rightarrow> ('k, 'v) world \<Rightarrow> ('k \<times> 'v) list option" where
  "iterate this w = do {
     b \<leftarrow> begin_lhm this w;
     e \<leftarrow> end_lhm this w;
     iterate_loop w b e []
   }"

subsection \<open>The state of a container\<close>

text \<open>
  The fields of the nodes, one partial map per field, undefined where no node is
  allocated.
\<close>

definition nxt_of :: "('k, 'v) world \<Rightarrow> addr \<rightharpoonup> addr" where
  "nxt_of w a = map_option nxt (nodes w a)"

definition prev_of :: "('k, 'v) world \<Rightarrow> addr \<rightharpoonup> addr" where
  "prev_of w a = map_option prev (nodes w a)"

definition data_of :: "('k, 'v) world \<Rightarrow> addr \<rightharpoonup> ('k \<times> 'v) option" where
  "data_of w a = map_option data (nodes w a)"

text \<open>Each node of the list points forward to its successor, which points back to it.\<close>

fun linked :: "(addr \<rightharpoonup> addr) \<Rightarrow> (addr \<rightharpoonup> addr) \<Rightarrow> addr list \<Rightarrow> bool" where
  "linked nx pv [] \<longleftrightarrow> True"
| "linked nx pv [x] \<longleftrightarrow> True"
| "linked nx pv (x # y # zs) \<longleftrightarrow> nx x = Some y \<and> pv y = Some x \<and> linked nx pv (y # zs)"

text \<open>
  An entry is the address of a live node with the pair it holds. \<open>footprint\<close> lists the
  nodes of a container: the head sentinel, the live nodes in list order, the tail sentinel.
\<close>

type_synonym ('k, 'v) entry = "addr \<times> 'k \<times> 'v"

definition footprint :: "lhm \<Rightarrow> ('k, 'v) entry list \<Rightarrow> addr list" where
  "footprint m es = head m # map fst es @ [tail m]"

definition order_list :: "('k, 'v) world \<Rightarrow> lhm \<Rightarrow> ('k, 'v) entry list \<Rightarrow> bool" where
  "order_list w m es \<longleftrightarrow>
     distinct (footprint m es) \<and>
     list_all (\<lambda>a. 0 < a \<and> a \<le> last_alloc w) (footprint m es) \<and>
     linked (nxt_of w) (prev_of w) (footprint m es) \<and>
     data_of w (head m) = Some None \<and> data_of w (tail m) = Some None \<and>
     list_all (\<lambda>e. data_of w (fst e) = Some (Some (snd e))) es"

text \<open>
  Chain \<open>i\<close> of the table holds, once each, the live nodes whose key hashes to \<open>i\<close>.
\<close>

definition buckets_ok ::
  "('k \<Rightarrow> nat) \<Rightarrow> addr list list \<Rightarrow> nat \<Rightarrow> ('k, 'v) entry list \<Rightarrow> bool" where
  "buckets_ok H t sz es \<longleftrightarrow>
     length t = sz \<and> 0 < sz \<and>
     list_all (\<lambda>i. distinct (t ! i) \<and>
                 set (t ! i) = set (map fst (filter (\<lambda>e. H (fst (snd e)) mod sz = i) es)))
       [0..<sz]"

text \<open>
  \<open>lhm_inv H w this es\<close>: the container at \<open>this\<close> holds the entries \<open>es\<close>, in this
  order, with the order list and the bucket index consistent with each other.
\<close>

definition lhm_inv ::
  "('k \<Rightarrow> nat) \<Rightarrow> ('k, 'v) world \<Rightarrow> addr \<Rightarrow> ('k, 'v) entry list \<Rightarrow> bool" where
  "lhm_inv H w this es \<longleftrightarrow>
     (case lhms w this of
        None \<Rightarrow> False
      | Some m \<Rightarrow>
          order_list w m es \<and> distinct (map (\<lambda>e. fst (snd e)) es) \<and>
          (case table m of None \<Rightarrow> False | Some t \<Rightarrow> buckets_ok H t (table_size m) es) \<and>
          element_count m = length es)"

text \<open>
  The load-factor bound. Every capacity the code produces is \<open>16\<close> doubled some number of
  times; the bound needs only that it is a multiple of \<open>4\<close>.
\<close>

definition load_ok :: "lhm \<Rightarrow> bool" where
  "load_ok m \<longleftrightarrow> 4 * element_count m \<le> 3 * table_size m \<and> 4 dvd table_size m"

definition lhm_wf ::
  "('k \<Rightarrow> nat) \<Rightarrow> ('k, 'v) world \<Rightarrow> addr \<Rightarrow> ('k, 'v) entry list \<Rightarrow> bool" where
  "lhm_wf H w this es \<longleftrightarrow>
     lhm_inv H w this es \<and> (case lhms w this of None \<Rightarrow> False | Some m \<Rightarrow> load_ok m)"

text \<open>Two containers that share no node.\<close>

definition separate ::
  "('k, 'v) world \<Rightarrow> addr \<Rightarrow> ('k, 'v) entry list \<Rightarrow> addr \<Rightarrow> ('k, 'v) entry list \<Rightarrow> bool" where
  "separate w a ea b eb \<longleftrightarrow>
     a \<noteq> b \<and>
     (case (lhms w a, lhms w b) of
        (Some ma, Some mb) \<Rightarrow> list_all (\<lambda>x. x \<notin> set (footprint mb eb)) (footprint ma ea)
      | _ \<Rightarrow> False)"

text \<open>
  What an operation on the container at \<open>this\<close> may change: the object at \<open>this\<close>, the
  nodes in \<open>S\<close> and the nodes it allocates.
\<close>

definition modifies ::
  "('k, 'v) world \<Rightarrow> ('k, 'v) world \<Rightarrow> addr \<Rightarrow> addr set \<Rightarrow> bool" where
  "modifies w w' this S \<longleftrightarrow>
     (\<forall>b. b \<noteq> this \<longrightarrow> lhms w' b = lhms w b) \<and>
     (\<forall>a. a \<notin> S \<and> a \<le> last_alloc w \<longrightarrow> nodes w' a = nodes w a) \<and>
     last_alloc w \<le> last_alloc w'"

subsection \<open>Definitions for stating the properties\<close>

text \<open>
  \<open>path w c es t\<close>: following \<^verbatim>\<open>next\<close> from \<open>c\<close> visits the nodes of \<open>es\<close>, which
  hold the pairs of \<open>es\<close>, and then reaches \<open>t\<close>.
\<close>

fun path :: "('k, 'v) world \<Rightarrow> addr \<Rightarrow> ('k, 'v) entry list \<Rightarrow> addr \<Rightarrow> bool" where
  "path w c [] t \<longleftrightarrow> c = t"
| "path w c (e # es) t \<longleftrightarrow>
     c = fst e \<and> c \<noteq> t \<and> data_of w c = Some (Some (snd e)) \<and>
     (case nxt_of w c of None \<Rightarrow> False | Some b \<Rightarrow> path w b es t)"

text \<open>A caller that inserts the pairs of a list one after the other.\<close>

fun insert_all ::
  "('k \<Rightarrow> nat) \<Rightarrow> addr \<Rightarrow> ('k \<times> 'v) list \<Rightarrow> ('k, 'v) world \<Rightarrow> ('k, 'v) world option" where
  "insert_all H this [] w = Some w"
| "insert_all H this (kv # kvs) w = do {
     (r, w') \<leftarrow> insert_lhm H this kv w;
     insert_all H this kvs w'
   }"

text \<open>
  The mutating calls of a caller: \<^verbatim>\<open>m.insert({k, v})\<close>, \<^verbatim>\<open>m.erase(m.find(k))\<close> with the
  exception caught, \<^verbatim>\<open>m[k]\<close> and \<^verbatim>\<open>m.clear()\<close>.
\<close>

datatype ('k, 'v) mutation = Insert 'k 'v | Erase_key 'k | Index 'k | Clear

fun mutate ::
  "('k \<Rightarrow> nat) \<Rightarrow> 'v \<Rightarrow> addr \<Rightarrow> ('k, 'v) mutation \<Rightarrow> ('k, 'v) world
     \<Rightarrow> ('k, 'v) world option" where
  "mutate H dflt this (Insert k v) w = do { (r, w') \<leftarrow> insert_lhm H this (k, v) w; Some w' }"
| "mutate H dflt this (Erase_key k) w = do {
     pos \<leftarrow> find_lhm H this k w;
     (r, w') \<leftarrow> erase H this pos w;
     Some w'
   }"
| "mutate H dflt this (Index k) w = do { (r, w') \<leftarrow> subscript H dflt this k w; Some w' }"
| "mutate H dflt this Clear w = clear this w"

fun mutate_all ::
  "('k \<Rightarrow> nat) \<Rightarrow> 'v \<Rightarrow> addr \<Rightarrow> ('k, 'v) mutation list \<Rightarrow> ('k, 'v) world
     \<Rightarrow> ('k, 'v) world option" where
  "mutate_all H dflt this [] w = Some w"
| "mutate_all H dflt this (x # xs) w = do {
     w' \<leftarrow> mutate H dflt this x w;
     mutate_all H dflt this xs w'
   }"

definition keys_of :: "('k, 'v) entry list \<Rightarrow> 'k set" where
  "keys_of es = (\<lambda>e. fst (snd e)) ` set es"

text \<open>The world before anything is allocated, with keys and values of type \<open>nat\<close>.\<close>

definition w_empty :: "(nat, nat) world" where
  "w_empty = \<lparr>nodes = Map.empty, lhms = Map.empty, last_alloc = 0\<rparr>"

subsection \<open>The node store, field by field\<close>

lemma dom_data_of: "data_of w a = Some d \<Longrightarrow> a \<in> dom (nodes w)"
  by (auto simp: data_of_def)

lemma dom_nxt_of: "nxt_of w a = Some b \<Longrightarrow> a \<in> dom (nodes w)"
  by (auto simp: nxt_of_def)

lemma dom_prev_of: "prev_of w a = Some b \<Longrightarrow> a \<in> dom (nodes w)"
  by (auto simp: prev_of_def)

lemma fields_of_node:
  "nodes w a = Some n \<Longrightarrow> data_of w a = Some (data n) \<and> nxt_of w a = Some (nxt n) \<and> prev_of w a = Some (prev n)"
  by (simp add: data_of_def nxt_of_def prev_of_def)

lemma node_of_fields:
  "a \<in> dom (nodes w) \<Longrightarrow> \<exists>n. nodes w a = Some n \<and> data_of w a = Some (data n) \<and> nxt_of w a = Some (nxt n) \<and> prev_of w a = Some (prev n)"
  by (auto simp: data_of_def nxt_of_def prev_of_def)

lemma fields_cong:
  "nodes w' a = nodes w a \<Longrightarrow> data_of w' a = data_of w a \<and> nxt_of w' a = nxt_of w a \<and> prev_of w' a = prev_of w a"
  by (simp add: data_of_def nxt_of_def prev_of_def)

lemma set_prev_spec:
  assumes "p \<in> dom (nodes w)"
  shows "\<exists>w'. set_prev p v w = Some w' \<and> prev_of w' = (prev_of w)(p \<mapsto> v) \<and> nxt_of w' = nxt_of w
           \<and> data_of w' = data_of w \<and> lhms w' = lhms w \<and> last_alloc w' = last_alloc w
           \<and> dom (nodes w') = dom (nodes w) \<and> (\<forall>a. a \<noteq> p \<longrightarrow> nodes w' a = nodes w a)"
  using assms by (auto simp: set_prev_def prev_of_def nxt_of_def data_of_def fun_eq_iff)

lemma set_nxt_spec:
  assumes "p \<in> dom (nodes w)"
  shows "\<exists>w'. set_nxt p v w = Some w' \<and> nxt_of w' = (nxt_of w)(p \<mapsto> v) \<and> prev_of w' = prev_of w
           \<and> data_of w' = data_of w \<and> lhms w' = lhms w \<and> last_alloc w' = last_alloc w
           \<and> dom (nodes w') = dom (nodes w) \<and> (\<forall>a. a \<noteq> p \<longrightarrow> nodes w' a = nodes w a)"
  using assms by (auto simp: set_nxt_def prev_of_def nxt_of_def data_of_def fun_eq_iff)

lemma delete_Node_spec:
  assumes "p \<in> dom (nodes w)"
  shows "\<exists>w'. delete_Node p w = Some w' \<and> nxt_of w' = (nxt_of w)(p := None)
           \<and> prev_of w' = (prev_of w)(p := None) \<and> data_of w' = (data_of w)(p := None)
           \<and> lhms w' = lhms w \<and> last_alloc w' = last_alloc w
           \<and> nodes w' p = None \<and> (\<forall>a. a \<noteq> p \<longrightarrow> nodes w' a = nodes w a)"
  using assms by (auto simp: delete_Node_def prev_of_def nxt_of_def data_of_def fun_eq_iff)

lemma new_Node_spec:
  "\<exists>w'. new_Node d w = (Suc (last_alloc w), w') \<and> nxt_of w' = (nxt_of w)(Suc (last_alloc w) \<mapsto> nullptr)
     \<and> prev_of w' = (prev_of w)(Suc (last_alloc w) \<mapsto> nullptr)
     \<and> data_of w' = (data_of w)(Suc (last_alloc w) \<mapsto> d)
     \<and> lhms w' = lhms w \<and> last_alloc w' = Suc (last_alloc w)
     \<and> (\<forall>a. a \<noteq> Suc (last_alloc w) \<longrightarrow> nodes w' a = nodes w a)"
  by (auto simp: new_Node_def Let_def prev_of_def nxt_of_def data_of_def fun_eq_iff)

lemma set_lhm_fields [simp]:
  "nodes (set_lhm this m w) = nodes w" "last_alloc (set_lhm this m w) = last_alloc w"
  "lhms (set_lhm this m w) = (lhms w)(this \<mapsto> m)"
  "nxt_of (set_lhm this m w) = nxt_of w" "prev_of (set_lhm this m w) = prev_of w"
  "data_of (set_lhm this m w) = data_of w"
  by (auto simp: set_lhm_def prev_of_def nxt_of_def data_of_def fun_eq_iff)

subsection \<open>Linked lists of nodes\<close>

lemma linked_append:
  "linked nx pv (xs @ x # ys) \<longleftrightarrow> linked nx pv (xs @ [x]) \<and> linked nx pv (x # ys)"
proof (induction nx pv xs rule: linked.induct)
  case 1
  show ?case by (cases ys) simp_all
next
  case (2 a)
  show ?case by (cases ys) auto
next
  case (3 a b zs)
  then show ?case by auto
qed

lemma linked_cong:
  assumes "\<forall>x \<in> set (butlast xs). nx' x = nx x" and "\<forall>x \<in> set (tl xs). pv' x = pv x"
  shows "linked nx' pv' xs = linked nx pv xs"
  using assms
proof (induction nx pv xs rule: linked.induct)
  case (3 x y zs)
  then show ?case by auto
qed simp_all

lemma linked_Cons:
  "linked nx pv (x # ys) \<longleftrightarrow> (case ys of [] \<Rightarrow> True | y # zs \<Rightarrow> nx x = Some y \<and> pv y = Some x \<and> linked nx pv ys)"
  by (cases ys) simp_all

lemma linked_snoc2:
  "linked nx pv (xs @ [x, y]) \<longleftrightarrow> linked nx pv (xs @ [x]) \<and> nx x = Some y \<and> pv y = Some x"
  using linked_append[of nx pv xs x "[y]"] by auto

subsection \<open>The bucket index\<close>

lemma buckets_ok_iff:
  "buckets_ok H t sz es \<longleftrightarrow>
     length t = sz \<and> 0 < sz \<and>
     (\<forall>i<sz. distinct (t ! i) \<and> set (t ! i) = {a. \<exists>k v. (a, k, v) \<in> set es \<and> H k mod sz = i})"
  by (auto simp: buckets_ok_def list_all_iff image_iff) force+

lemma buckets_ok_empty: "0 < sz \<Longrightarrow> buckets_ok H (replicate sz []) sz []"
  by (simp add: buckets_ok_iff)

lemma buckets_ok_insert:
  assumes "buckets_ok H t sz es" and "a \<notin> fst ` set es"
  shows "buckets_ok H (t[H k mod sz := a # t ! (H k mod sz)]) sz (es @ [(a, k, v)])"
proof -
  from assms(1) have len: "length t = sz" and pos: "0 < sz"
    and ch: "\<And>i. i < sz \<Longrightarrow> distinct (t ! i) \<and> set (t ! i) = {a. \<exists>k v. (a, k, v) \<in> set es \<and> H k mod sz = i}"
    by (auto simp: buckets_ok_iff)
  let ?j = "H k mod sz"
  have j: "?j < sz" using pos by simp
  have "distinct ((t[?j := a # t ! ?j]) ! i) \<and>
        set ((t[?j := a # t ! ?j]) ! i) = {b. \<exists>k' v'. (b, k', v') \<in> set (es @ [(a, k, v)]) \<and> H k' mod sz = i}"
    if i: "i < sz" for i
  proof (cases "i = ?j")
    case True
    have "a \<notin> set (t ! ?j)" using ch[OF j] assms(2) by force
    with True ch[OF j] j len show ?thesis by auto
  next
    case False
    with ch[OF i] i len show ?thesis by auto
  qed
  with len pos show ?thesis by (simp add: buckets_ok_iff)
qed

lemma buckets_ok_remove:
  assumes "buckets_ok H t sz (es1 @ (a, k, v) # es2)"
    and "distinct (map fst (es1 @ (a, k, v) # es2))"
  shows "buckets_ok H (t[H k mod sz := remove1 a (t ! (H k mod sz))]) sz (es1 @ es2)"
proof -
  let ?es = "es1 @ (a, k, v) # es2"
  from assms(1) have len: "length t = sz" and pos: "0 < sz"
    and ch: "\<And>i. i < sz \<Longrightarrow> distinct (t ! i) \<and> set (t ! i) = {a. \<exists>k v. (a, k, v) \<in> set ?es \<and> H k mod sz = i}"
    by (auto simp: buckets_ok_iff)
  let ?j = "H k mod sz"
  have j: "?j < sz" using pos by simp
  have notin: "(a, k', v') \<notin> set (es1 @ es2)" for k' v'
    using assms(2) by (force simp: image_iff)
  have "distinct ((t[?j := remove1 a (t ! ?j)]) ! i) \<and>
        set ((t[?j := remove1 a (t ! ?j)]) ! i) = {b. \<exists>k' v'. (b, k', v') \<in> set (es1 @ es2) \<and> H k' mod sz = i}"
    if i: "i < sz" for i
  proof (cases "i = ?j")
    case True
    have "set (remove1 a (t ! ?j)) = set (t ! ?j) - {a}" using ch[OF j] by simp
    also have "\<dots> = {b. \<exists>k' v'. (b, k', v') \<in> set (es1 @ es2) \<and> H k' mod sz = ?j}"
      using ch[OF j] notin by auto
    finally show ?thesis using True ch[OF j] j len by simp
  next
    case False
    have "{b. \<exists>k' v'. (b, k', v') \<in> set ?es \<and> H k' mod sz = i}
        = {b. \<exists>k' v'. (b, k', v') \<in> set (es1 @ es2) \<and> H k' mod sz = i}"
      using False by auto
    with False ch[OF i] i len show ?thesis by simp
  qed
  with len pos show ?thesis by (simp add: buckets_ok_iff)
qed

lemma buckets_ok_chain:
  assumes "buckets_ok H t sz es"
  shows "H k mod sz < length t"
    and "set (t ! (H k mod sz)) \<subseteq> fst ` set es"
    and "distinct (t ! (H k mod sz))"
    and "(a, k, v) \<in> set es \<Longrightarrow> a \<in> set (t ! (H k mod sz))"
  using assms by (force simp: buckets_ok_iff)+

subsection \<open>Scanning a chain\<close>

lemma entry_node:
  assumes "list_all (\<lambda>e. data_of w (fst e) = Some (Some (snd e))) es" and "(a, kv) \<in> set es"
  shows "\<exists>n. nodes w a = Some n \<and> data n = Some kv"
  using assms by (force simp: list_all_iff data_of_def)

lemma find_node_loop_present:
  assumes dat: "list_all (\<lambda>e. data_of w (fst e) = Some (Some (snd e))) es"
    and keys: "distinct (map (\<lambda>e. fst (snd e)) es)"
    and sub: "set c \<subseteq> fst ` set es"
    and mem: "(a, k, v) \<in> set es" and a: "a \<in> set c"
  shows "find_node_loop (nodes w) k c = Some a"
  using sub a
proof (induction c)
  case Nil
  then show ?case by simp
next
  case (Cons b c)
  from Cons.prems(1) obtain k' v' where b: "(b, k', v') \<in> set es" by force
  from entry_node[OF dat b] obtain n where n: "nodes w b = Some n" "data n = Some (k', v')" by blast
  show ?case
  proof (cases "k' = k")
    case True
    from keys b mem True have "(b, k', v') = (a, k, v)"
      by (metis (mono_tags, lifting) distinct_map fst_conv inj_onD snd_conv)
    with n True show ?thesis by simp
  next
    case False
    have "data_of w b = Some (Some (k', v'))" "data_of w a = Some (Some (k, v))"
      using dat b mem by (auto simp: list_all_iff)
    with False have "b \<noteq> a" by auto
    with Cons n False show ?thesis by simp
  qed
qed

lemma find_node_loop_absent:
  assumes dat: "list_all (\<lambda>e. data_of w (fst e) = Some (Some (snd e))) es"
    and sub: "set c \<subseteq> fst ` set es"
    and abs: "k \<notin> (\<lambda>e. fst (snd e)) ` set es"
  shows "find_node_loop (nodes w) k c = Some nullptr"
  using sub
proof (induction c)
  case Nil
  then show ?case by simp
next
  case (Cons b c)
  from Cons.prems(1) obtain k' v' where b: "(b, k', v') \<in> set es" by force
  from entry_node[OF dat b] obtain n where n: "nodes w b = Some n" "data n = Some (k', v')" by blast
  from b abs have "k' \<noteq> k" by force
  with Cons n show ?case by simp
qed

lemma remove_from_table_loop_present:
  assumes dat: "list_all (\<lambda>e. data_of w (fst e) = Some (Some (snd e))) es"
    and keys: "distinct (map (\<lambda>e. fst (snd e)) es)"
    and sub: "set c \<subseteq> fst ` set es"
    and mem: "(a, k, v) \<in> set es" and a: "a \<in> set c"
  shows "remove_from_table_loop (nodes w) k c = Some (remove1 a c)"
  using sub a
proof (induction c)
  case Nil
  then show ?case by simp
next
  case (Cons b c)
  from Cons.prems(1) obtain k' v' where b: "(b, k', v') \<in> set es" by force
  from entry_node[OF dat b] obtain n where n: "nodes w b = Some n" "data n = Some (k', v')" by blast
  show ?case
  proof (cases "k' = k")
    case True
    from keys b mem True have "(b, k', v') = (a, k, v)"
      by (metis (mono_tags, lifting) distinct_map fst_conv inj_onD snd_conv)
    with n True show ?thesis by simp
  next
    case False
    have "data_of w b = Some (Some (k', v'))" "data_of w a = Some (Some (k, v))"
      using dat b mem by (auto simp: list_all_iff)
    with False have "b \<noteq> a" by auto
    with Cons n False show ?thesis by simp
  qed
qed

subsection \<open>Facts of the invariant\<close>

lemma lhm_invD:
  assumes "lhm_inv H w this es"
  obtains m t where "lhms w this = Some m" "table m = Some t" "order_list w m es"
    "distinct (map (\<lambda>e. fst (snd e)) es)" "buckets_ok H t (table_size m) es"
    "element_count m = length es"
  using assms by (auto simp: lhm_inv_def split: option.splits)

lemma lhm_invD':
  assumes "lhm_inv H w this es" and "lhms w this = Some m"
  shows "\<exists>t. table m = Some t \<and> order_list w m es \<and>
    distinct (map (\<lambda>e. fst (snd e)) es) \<and> buckets_ok H t (table_size m) es \<and>
    element_count m = length es"
  using assms by (auto simp: lhm_inv_def split: option.splits)

lemma lhm_invI:
  assumes "lhms w this = Some m" "table m = Some t" "order_list w m es"
    "distinct (map (\<lambda>e. fst (snd e)) es)" "buckets_ok H t (table_size m) es"
    "element_count m = length es"
  shows "lhm_inv H w this es"
  using assms by (simp add: lhm_inv_def)

lemma footprint_simps [simp]:
  "footprint (m\<lparr>table := x\<rparr>) es = footprint m es"
  "footprint (m\<lparr>table_size := y\<rparr>) es = footprint m es"
  "footprint (m\<lparr>element_count := z\<rparr>) es = footprint m es"
  by (simp_all add: footprint_def)

lemma order_list_cong:
  assumes ol: "order_list w m es" and hd: "head m' = head m" and tl: "tail m' = tail m"
    and same: "\<forall>a \<in> set (footprint m es). nodes w' a = nodes w a"
    and mono: "last_alloc w \<le> last_alloc w'"
  shows "order_list w' m' es"
proof -
  have fp: "footprint m' es = footprint m es" using hd tl by (simp add: footprint_def)
  have v: "nxt_of w' a = nxt_of w a \<and> prev_of w' a = prev_of w a \<and> data_of w' a = data_of w a"
    if "a \<in> set (footprint m es)" for a
    using same that fields_cong[of w' a w] by blast
  have mem: "head m \<in> set (footprint m es)" "tail m \<in> set (footprint m es)"
    "\<And>e. e \<in> set es \<Longrightarrow> fst e \<in> set (footprint m es)"
    by (simp_all add: footprint_def)
  have "set (butlast (footprint m es)) \<subseteq> set (footprint m es)"
    by (meson in_set_butlastD subsetI)
  then have n: "\<forall>x \<in> set (butlast (footprint m es)). nxt_of w' x = nxt_of w x"
    using v by blast
  have "set (tl (footprint m es)) \<subseteq> set (footprint m es)"
    by (auto simp: footprint_def)
  then have p: "\<forall>x \<in> set (tl (footprint m es)). prev_of w' x = prev_of w x"
    using v by blast
  have l: "linked (nxt_of w') (prev_of w') (footprint m es) = linked (nxt_of w) (prev_of w) (footprint m es)"
    using n p by (rule linked_cong)
  have d: "list_all (\<lambda>e. data_of w' (fst e) = Some (Some (snd e))) es"
    using ol v mem(3) by (simp add: order_list_def list_all_iff)
  have b: "list_all (\<lambda>a. 0 < a \<and> a \<le> last_alloc w') (footprint m es)"
    using ol mono by (auto simp: order_list_def list_all_iff)
  have s: "data_of w' (head m) = Some None" "data_of w' (tail m) = Some None"
    using ol v mem(1,2) by (simp_all add: order_list_def)
  from ol have "distinct (footprint m es)" "linked (nxt_of w) (prev_of w) (footprint m es)"
    by (simp_all add: order_list_def)
  with l d b s show ?thesis unfolding order_list_def fp hd tl by simp
qed

lemma lhm_inv_frame:
  assumes inv: "lhm_inv H w this es" and m: "lhms w this = Some m" and m': "lhms w' this = Some m"
    and same: "\<forall>a \<in> set (footprint m es). nodes w' a = nodes w a"
    and mono: "last_alloc w \<le> last_alloc w'"
  shows "lhm_inv H w' this es"
proof -
  from lhm_invD'[OF inv m] obtain t where t: "table m = Some t" "order_list w m es"
    "distinct (map (\<lambda>e. fst (snd e)) es)" "buckets_ok H t (table_size m) es"
    "element_count m = length es"
    by blast
  from order_list_cong[OF t(2) refl refl same mono] t m' show ?thesis
    by (intro lhm_invI) auto
qed

lemma order_list_distinct_addrs: "order_list w m es \<Longrightarrow> distinct (map fst es)"
  by (simp add: order_list_def footprint_def)

lemma order_list_data:
  "order_list w m es \<Longrightarrow> list_all (\<lambda>e. data_of w (fst e) = Some (Some (snd e))) es"
  by (simp add: order_list_def)

lemma order_list_entry_pos:
  "order_list w m es \<Longrightarrow> (a, kv) \<in> set es \<Longrightarrow> 0 < a \<and> a \<le> last_alloc w \<and> a \<noteq> head m \<and> a \<noteq> tail m"
  by (force simp: order_list_def footprint_def list_all_iff)

lemma linked_path:
  assumes "linked (nxt_of w) (prev_of w) (x # map fst es @ [t])"
    and "distinct (map fst es @ [t])"
    and "list_all (\<lambda>e. data_of w (fst e) = Some (Some (snd e))) es"
  shows "\<exists>b. nxt_of w x = Some b \<and> path w b es t"
  using assms
proof (induction es arbitrary: x)
  case Nil
  then show ?case by simp
next
  case (Cons e es)
  from Cons.prems have nx: "nxt_of w x = Some (fst e)" by simp
  from Cons.prems have "linked (nxt_of w) (prev_of w) (fst e # map fst es @ [t])" by simp
  from Cons.IH[OF this] Cons.prems obtain b where "nxt_of w (fst e) = Some b" "path w b es t"
    by auto
  with nx Cons.prems show ?case by auto
qed

lemma order_list_path:
  assumes "order_list w m es"
  shows "\<exists>b. nxt_of w (head m) = Some b \<and> path w b es (tail m)"
  using assms linked_path[of w "head m" es "tail m"]
  by (simp add: order_list_def footprint_def)

lemma path_cong:
  assumes "\<forall>e \<in> set es. nodes w' (fst e) = nodes w (fst e)"
  shows "path w' c es t = path w c es t"
  using assms
proof (induction es arbitrary: c)
  case Nil
  then show ?case by simp
next
  case (Cons e es)
  then have "nxt_of w' (fst e) = nxt_of w (fst e)" "data_of w' (fst e) = data_of w (fst e)"
    using fields_cong[of w' "fst e" w] by simp_all
  with Cons show ?case by (auto split: option.splits)
qed

subsection \<open>Lookup\<close>

lemma find_node_present:
  assumes "lhm_inv H w this es" and "(a, k, v) \<in> set es"
  shows "find_node H this k w = Some a" and "a \<noteq> nullptr"
proof -
  from assms(1) obtain m t where m: "lhms w this = Some m" "table m = Some t" "order_list w m es"
    "distinct (map (\<lambda>e. fst (snd e)) es)" "buckets_ok H t (table_size m) es"
    by (rule lhm_invD)
  from m(5) have sz: "table_size m \<noteq> 0" by (simp add: buckets_ok_iff)
  have "find_node_loop (nodes w) k (t ! (H k mod table_size m)) = Some a"
    using order_list_data[OF m(3)] m(4) buckets_ok_chain(2)[OF m(5)] assms(2)
      buckets_ok_chain(4)[OF m(5) assms(2)]
    by (rule find_node_loop_present)
  with m sz buckets_ok_chain(1)[OF m(5)] show "find_node H this k w = Some a"
    by (simp add: find_node_def get_bucket_index_def)
  from order_list_entry_pos[OF m(3) assms(2)] show "a \<noteq> nullptr" by simp
qed

lemma find_node_absent:
  assumes "lhm_inv H w this es" and "k \<notin> (\<lambda>e. fst (snd e)) ` set es"
  shows "find_node H this k w = Some nullptr"
proof -
  from assms(1) obtain m t where m: "lhms w this = Some m" "table m = Some t" "order_list w m es"
    "distinct (map (\<lambda>e. fst (snd e)) es)" "buckets_ok H t (table_size m) es"
    by (rule lhm_invD)
  from m(5) have sz: "table_size m \<noteq> 0" by (simp add: buckets_ok_iff)
  have "find_node_loop (nodes w) k (t ! (H k mod table_size m)) = Some nullptr"
    using order_list_data[OF m(3)] buckets_ok_chain(2)[OF m(5)] assms(2)
    by (rule find_node_loop_absent)
  with m sz buckets_ok_chain(1)[OF m(5)] show ?thesis
    by (simp add: find_node_def get_bucket_index_def)
qed

subsection \<open>Rebuilding the bucket index\<close>

lemma path_node:
  assumes "path w c ((a, kv) # es) t"
  shows "\<exists>n. c = a \<and> a \<noteq> t \<and> nodes w a = Some n \<and> data n = Some kv \<and> path w (nxt n) es t"
  using assms by (auto simp: data_of_def nxt_of_def split: option.splits)

lemma rehash_loop_spec:
  assumes m: "lhms w this = Some m"
    and "path w c es (tail m)"
    and "buckets_ok H t sz done"
    and "distinct (map fst (done @ es))"
  shows "\<exists>t'. rehash_loop H this w sz c t = Some t' \<and> buckets_ok H t' sz (done @ es)"
  using assms(2-)
proof (induction es arbitrary: c t "done")
  case Nil
  then show ?case using m by (subst rehash_loop.simps) simp
next
  case (Cons e es)
  obtain a k v where e: "e = (a, k, v)" by (cases e)
  from path_node[OF Cons.prems(1)[unfolded e]] obtain n where n: "c = a" "c \<noteq> tail m"
    "nodes w c = Some n" "data n = Some (k, v)" "path w (nxt n) es (tail m)"
    by auto
  from Cons.prems(2) have sz: "sz \<noteq> 0" "length t = sz" by (simp_all add: buckets_ok_iff)
  have notin: "a \<notin> fst ` set done" using Cons.prems(3) unfolding e by auto
  have b: "buckets_ok H (t[H k mod sz := a # t ! (H k mod sz)]) sz (done @ [(a, k, v)])"
    using Cons.prems(2) notin by (rule buckets_ok_insert)
  have d: "distinct (map fst ((done @ [(a, k, v)]) @ es))" using Cons.prems(3) unfolding e by simp
  from Cons.IH[OF n(5) b d] obtain t' where
    "rehash_loop H this w sz (nxt n) (t[H k mod sz := a # t ! (H k mod sz)]) = Some t'"
    "buckets_ok H t' sz (done @ e # es)" unfolding e by auto
  then show ?case using m n sz by (subst rehash_loop.simps) (simp add: Let_def)
qed

lemma rehash_spec:
  assumes inv: "lhm_inv H w this es" and m: "lhms w this = Some m"
  shows "\<exists>t'. rehash H this w = Some (set_lhm this (m\<lparr>table := Some t', table_size := 2 * table_size m\<rparr>) w)
           \<and> lhm_inv H (set_lhm this (m\<lparr>table := Some t', table_size := 2 * table_size m\<rparr>) w) this es"
proof -
  from lhm_invD'[OF inv m] obtain t where t: "table m = Some t" "order_list w m es"
    "distinct (map (\<lambda>e. fst (snd e)) es)" "buckets_ok H t (table_size m) es"
    "element_count m = length es"
    by blast
  from t(4) have sz: "0 < table_size m" "length t = table_size m" by (simp_all add: buckets_ok_iff)
  from order_list_path[OF t(2)] obtain b where b: "nxt_of w (head m) = Some b" "path w b es (tail m)"
    by blast
  then obtain hn where hn: "nodes w (head m) = Some hn" "nxt hn = b"
    by (auto simp: nxt_of_def)
  have "buckets_ok H (replicate (table_size m * 2) []) (table_size m * 2) []"
    using sz by (intro buckets_ok_empty) simp
  from rehash_loop_spec[OF m b(2) this] order_list_distinct_addrs[OF t(2)]
  obtain t' where t': "rehash_loop H this w (table_size m * 2) b (replicate (table_size m * 2) []) = Some t'"
    "buckets_ok H t' (2 * table_size m) es" by (auto simp: mult.commute)
  let ?m' = "m\<lparr>table := Some t', table_size := 2 * table_size m\<rparr>"
  have r: "rehash H this w = Some (set_lhm this ?m' w)"
    using m hn t' t(1) sz by (simp add: rehash_def clear_table_def Let_def mult.commute)
  have "order_list (set_lhm this ?m' w) ?m' es"
    by (rule order_list_cong[OF t(2)]) simp_all
  then have "lhm_inv H (set_lhm this ?m' w) this es"
    using t' t by (intro lhm_invI[where m = ?m' and t = t']) simp_all
  with r show ?thesis by blast
qed

subsection \<open>Insertion\<close>

lemma order_list_last:
  assumes "order_list w m es"
  shows "prev_of w (tail m) = Some (last (head m # map fst es))"
proof -
  let ?F = "head m # map fst es"
  have "footprint m es = butlast ?F @ [last ?F, tail m]"
    unfolding footprint_def using append_butlast_last_id[of ?F]
    by (metis append.assoc append_Cons append_Nil list.distinct(1))
  with assms have "linked (nxt_of w) (prev_of w) (butlast ?F @ [last ?F, tail m])"
    by (simp add: order_list_def)
  then show ?thesis by (simp add: linked_snoc2)
qed

lemma insert_to_list_spec:
  assumes m: "lhms w this = Some m" and l: "prev_of w (tail m) = Some l"
    and dom: "a \<in> dom (nodes w)" "l \<in> dom (nodes w)" and neq: "a \<noteq> tail m"
  shows "\<exists>w'. insert_to_list this a w = Some w'
           \<and> nxt_of w' = (nxt_of w)(a \<mapsto> tail m, l \<mapsto> a)
           \<and> prev_of w' = (prev_of w)(a \<mapsto> l, tail m \<mapsto> a)
           \<and> data_of w' = data_of w \<and> lhms w' = lhms w \<and> last_alloc w' = last_alloc w
           \<and> (\<forall>x. x \<noteq> a \<and> x \<noteq> l \<and> x \<noteq> tail m \<longrightarrow> nodes w' x = nodes w x)"
proof -
  from l obtain tn where tn: "nodes w (tail m) = Some tn" "prev tn = l"
    by (auto simp: prev_of_def)
  from set_prev_spec[OF dom(1), of l] obtain w1 where w1: "set_prev a l w = Some w1"
    "prev_of w1 = (prev_of w)(a \<mapsto> l)" "nxt_of w1 = nxt_of w" "data_of w1 = data_of w"
    "lhms w1 = lhms w" "last_alloc w1 = last_alloc w" "dom (nodes w1) = dom (nodes w)"
    "\<forall>x. x \<noteq> a \<longrightarrow> nodes w1 x = nodes w x" by blast
  from dom w1(7) have "a \<in> dom (nodes w1)" by simp
  from set_nxt_spec[OF this, of "tail m"] obtain w2 where w2: "set_nxt a (tail m) w1 = Some w2"
    "nxt_of w2 = (nxt_of w1)(a \<mapsto> tail m)" "prev_of w2 = prev_of w1" "data_of w2 = data_of w1"
    "lhms w2 = lhms w1" "last_alloc w2 = last_alloc w1" "dom (nodes w2) = dom (nodes w1)"
    "\<forall>x. x \<noteq> a \<longrightarrow> nodes w2 x = nodes w1 x" by blast
  have tn2: "nodes w2 (tail m) = Some tn" using tn w1(8) w2(8) neq by simp
  from dom w1(7) w2(7) have "l \<in> dom (nodes w2)" by simp
  from set_nxt_spec[OF this, of a] obtain w3 where w3: "set_nxt l a w2 = Some w3"
    "nxt_of w3 = (nxt_of w2)(l \<mapsto> a)" "prev_of w3 = prev_of w2" "data_of w3 = data_of w2"
    "lhms w3 = lhms w2" "last_alloc w3 = last_alloc w2" "dom (nodes w3) = dom (nodes w2)"
    "\<forall>x. x \<noteq> l \<longrightarrow> nodes w3 x = nodes w2 x" by blast
  have "tail m \<in> dom (nodes w3)" using tn2 w3(7) by auto
  from set_prev_spec[OF this, of a] obtain w4 where w4: "set_prev (tail m) a w3 = Some w4"
    "prev_of w4 = (prev_of w3)(tail m \<mapsto> a)" "nxt_of w4 = nxt_of w3" "data_of w4 = data_of w3"
    "lhms w4 = lhms w3" "last_alloc w4 = last_alloc w3" "dom (nodes w4) = dom (nodes w3)"
    "\<forall>x. x \<noteq> tail m \<longrightarrow> nodes w4 x = nodes w3 x" by blast
  have "insert_to_list this a w = Some w4"
    using m tn w1(1,5) w2(1,5) tn2 w3(1) w4(1) by (simp add: insert_to_list_def)
  moreover have "nxt_of w4 = (nxt_of w)(a \<mapsto> tail m, l \<mapsto> a)"
    by (simp add: w4 w3 w2 w1)
  moreover have "prev_of w4 = (prev_of w)(a \<mapsto> l, tail m \<mapsto> a)"
    by (simp add: w4 w3 w2 w1)
  moreover have "data_of w4 = data_of w" "lhms w4 = lhms w" "last_alloc w4 = last_alloc w"
    by (simp_all add: w4 w3 w2 w1)
  moreover have "\<forall>x. x \<noteq> a \<and> x \<noteq> l \<and> x \<noteq> tail m \<longrightarrow> nodes w4 x = nodes w x"
    using w1(8) w2(8) w3(8) w4(8) by simp
  ultimately show ?thesis by blast
qed

lemma order_list_snoc:
  assumes ol: "order_list w m es"
    and a: "a = Suc (last_alloc w)" and l: "l = last (head m # map fst es)"
    and nx: "nxt_of w' = (nxt_of w)(a \<mapsto> tail m, l \<mapsto> a)"
    and pv: "prev_of w' = (prev_of w)(a \<mapsto> l, tail m \<mapsto> a)"
    and dt: "data_of w' = (data_of w)(a \<mapsto> Some kv)"
    and la: "last_alloc w' = a"
    and hd: "head m' = head m" and tl: "tail m' = tail m"
  shows "order_list w' m' (es @ [(a, kv)])"
proof -
  let ?F = "head m # map fst es"
  from ol have dist: "distinct (?F @ [tail m])"
    and bnd: "list_all (\<lambda>x. 0 < x \<and> x \<le> last_alloc w) (?F @ [tail m])"
    and lk: "linked (nxt_of w) (prev_of w) (?F @ [tail m])"
    and sent: "data_of w (head m) = Some None" "data_of w (tail m) = Some None"
    and dat: "list_all (\<lambda>e. data_of w (fst e) = Some (Some (snd e))) es"
    by (simp_all add: order_list_def footprint_def)
  have fresh: "a \<notin> set (?F @ [tail m])"
    using bnd a by (auto simp: list_all_iff)
  have F: "?F = butlast ?F @ [l]" unfolding l by simp
  have lF: "l \<in> set ?F" unfolding l by (rule last_in_set) simp
  have lbl: "l \<notin> set (butlast ?F)"
    using dist F by (metis distinct_append distinct_butlast disjoint_iff not_distinct_conv_prefix
        append.assoc in_set_conv_decomp)
  have ltl: "l \<noteq> tail m" using dist lF by auto
  have fp': "footprint m' (es @ [(a, kv)]) = ?F @ [a, tail m]"
    by (simp add: footprint_def hd tl)
  have "linked (nxt_of w) (prev_of w) ?F"
    using lk linked_append[of "nxt_of w" "prev_of w" "butlast ?F" l "[tail m]"] F
    by (metis append.assoc append_Cons append_Nil)
  moreover have "linked (nxt_of w') (prev_of w') ?F = linked (nxt_of w) (prev_of w) ?F"
  proof (rule linked_cong)
    show "\<forall>x\<in>set (butlast ?F). nxt_of w' x = nxt_of w x"
      using fresh lbl by (auto simp: nx dest: in_set_butlastD)
    have "x \<noteq> a \<and> x \<noteq> tail m" if "x \<in> set ?F" for x
      using that fresh dist by force
    then have "prev_of w' x = prev_of w x" if "x \<in> set ?F" for x
      using that by (simp add: pv)
    moreover have "set (tl ?F) \<subseteq> set ?F" by auto
    ultimately show "\<forall>x\<in>set (tl ?F). prev_of w' x = prev_of w x" by blast
  qed
  ultimately have "linked (nxt_of w') (prev_of w') (butlast ?F @ [l])" using F by simp
  moreover have "nxt_of w' l = Some a" "prev_of w' a = Some l" "nxt_of w' a = Some (tail m)"
    "prev_of w' (tail m) = Some a"
    using fresh lF ltl by (auto simp: nx pv)
  ultimately have "linked (nxt_of w') (prev_of w') ((butlast ?F @ [l]) @ [a, tail m])"
    using linked_snoc2[of "nxt_of w'" "prev_of w'" "butlast ?F @ [l]" a "tail m"]
      linked_snoc2[of "nxt_of w'" "prev_of w'" "butlast ?F" l a] by simp
  then have lk': "linked (nxt_of w') (prev_of w') (?F @ [a, tail m])" using F by simp
  have dist': "distinct (?F @ [a, tail m])" using dist fresh by auto
  have bnd': "list_all (\<lambda>x. 0 < x \<and> x \<le> last_alloc w') (?F @ [a, tail m])"
    using bnd a la by (auto simp: list_all_iff)
  have sent': "data_of w' (head m) = Some None" "data_of w' (tail m) = Some None"
    using sent fresh by (auto simp: dt)
  have dat': "list_all (\<lambda>e. data_of w' (fst e) = Some (Some (snd e))) (es @ [(a, kv)])"
    using dat fresh by (auto simp: dt list_all_iff)
  show ?thesis
    unfolding order_list_def fp' hd tl using lk' dist' bnd' sent' dat' by simp
qed

lemma fields_of_nodes:
  "nodes w' = nodes w \<Longrightarrow> nxt_of w' = nxt_of w \<and> prev_of w' = prev_of w \<and> data_of w' = data_of w"
  by (simp add: fun_eq_iff nxt_of_def prev_of_def data_of_def)

lemma order_list_dom:
  assumes "order_list w m es" and "x \<in> set (footprint m es)"
  shows "x \<in> dom (nodes w)"
proof -
  from assms have "data_of w x \<noteq> None"
    by (auto simp: order_list_def footprint_def list_all_iff)
  then show ?thesis by (auto simp: data_of_def)
qed

lemma order_list_bound:
  "order_list w m es \<Longrightarrow> x \<in> set (footprint m es) \<Longrightarrow> 0 < x \<and> x \<le> last_alloc w"
  by (simp add: order_list_def list_all_iff)

lemma insert_present:
  assumes "lhm_inv H w this es" and "(a, k, v) \<in> set es"
  shows "insert_lhm H this (k, v') w = Some ((\<lparr>it_node = a, it_map = this\<rparr>, False), w)"
  using find_node_present[OF assms] by (simp add: insert_lhm_def)

lemma grow_step:
  assumes inv: "lhm_inv H w this es" and m: "lhms w this = Some m"
  shows "\<exists>w1 m1. (if load_factor_reached m then rehash H this w else Some w) = Some w1
           \<and> lhms w1 = (lhms w)(this \<mapsto> m1) \<and> nodes w1 = nodes w \<and> last_alloc w1 = last_alloc w
           \<and> lhm_inv H w1 this es \<and> head m1 = head m \<and> tail m1 = tail m
           \<and> element_count m1 = element_count m
           \<and> table_size m1 = (if load_factor_reached m then 2 * table_size m else table_size m)"
proof (cases "load_factor_reached m")
  case True
  from rehash_spec[OF inv m] obtain t' where
    "rehash H this w = Some (set_lhm this (m\<lparr>table := Some t', table_size := 2 * table_size m\<rparr>) w)"
    "lhm_inv H (set_lhm this (m\<lparr>table := Some t', table_size := 2 * table_size m\<rparr>) w) this es"
    by blast
  with True show ?thesis
    by (intro exI[of _ "set_lhm this (m\<lparr>table := Some t', table_size := 2 * table_size m\<rparr>) w"]
        exI[of _ "m\<lparr>table := Some t', table_size := 2 * table_size m\<rparr>"]) simp
next
  case False
  have "lhms w = (lhms w)(this \<mapsto> m)" using m by (simp add: fun_upd_idem)
  with False inv show ?thesis by (intro exI[of _ w] exI[of _ m]) simp
qed

lemma insert_absent:
  assumes inv: "lhm_inv H w this es" and m: "lhms w this = Some m"
    and abs: "k \<notin> (\<lambda>e. fst (snd e)) ` set es"
  shows "\<exists>w' m'. insert_lhm H this (k, v) w
             = Some ((\<lparr>it_node = Suc (last_alloc w), it_map = this\<rparr>, True), w')
           \<and> lhm_inv H w' this (es @ [(Suc (last_alloc w), k, v)])
           \<and> lhms w' this = Some m' \<and> head m' = head m \<and> tail m' = tail m
           \<and> table_size m' = (if load_factor_reached m then 2 * table_size m else table_size m)
           \<and> element_count m' = element_count m + 1
           \<and> modifies w w' this (set (footprint m es))
           \<and> last_alloc w' = Suc (last_alloc w)"
proof -
  let ?a = "Suc (last_alloc w)"
  from grow_step[OF inv m] obtain w1 m1 where
    g: "(if load_factor_reached m then rehash H this w else Some w) = Some w1"
    and w1: "lhms w1 = (lhms w)(this \<mapsto> m1)" "nodes w1 = nodes w" "last_alloc w1 = last_alloc w"
    and inv1: "lhm_inv H w1 this es"
    and m1: "head m1 = head m" "tail m1 = tail m" "element_count m1 = element_count m"
      "table_size m1 = (if load_factor_reached m then 2 * table_size m else table_size m)"
    by blast
  have lm1: "lhms w1 this = Some m1" by (simp add: w1)
  from lhm_invD'[OF inv1 lm1] obtain t1 where t1: "table m1 = Some t1"
    and ol1: "order_list w1 m1 es"
    and keys: "distinct (map (\<lambda>e. fst (snd e)) es)"
    and bk1: "buckets_ok H t1 (table_size m1) es"
    and cnt1: "element_count m1 = length es" by blast
  have fp1: "footprint m1 es = footprint m es" by (simp add: footprint_def m1)
  from fields_of_nodes[OF w1(2)] have v1: "nxt_of w1 = nxt_of w" "prev_of w1 = prev_of w"
    "data_of w1 = data_of w" by simp_all
  from new_Node_spec[of "Some (k, v)" w1] obtain w2 where
    n2: "new_Node (Some (k, v)) w1 = (?a, w2)"
    and w2: "nxt_of w2 = (nxt_of w1)(?a \<mapsto> nullptr)" "prev_of w2 = (prev_of w1)(?a \<mapsto> nullptr)"
      "data_of w2 = (data_of w1)(?a \<mapsto> Some (k, v))" "lhms w2 = lhms w1"
      "last_alloc w2 = ?a" "\<forall>x. x \<noteq> ?a \<longrightarrow> nodes w2 x = nodes w1 x"
    by (auto simp: w1)
  define l where "l = last (head m1 # map fst es)"
  have "l \<in> set (head m1 # map fst es)" unfolding l_def by (rule last_in_set) simp
  then have lfp: "l \<in> set (footprint m1 es)" by (auto simp: footprint_def)
  have tfp: "tail m1 \<in> set (footprint m1 es)" by (simp add: footprint_def)
  have fresh: "x \<noteq> ?a" if "x \<in> set (footprint m1 es)" for x
    using order_list_bound[OF ol1 that] w1(3) by simp
  have pt: "prev_of w2 (tail m1) = Some l"
    using order_list_last[OF ol1] fresh[OF tfp] by (simp add: w2 l_def)
  have "nodes w2 l = nodes w1 l" using fresh[OF lfp] w2(6) by simp
  then have ld: "l \<in> dom (nodes w2)" using order_list_dom[OF ol1 lfp] by (simp add: dom_def)
  have ad: "?a \<in> dom (nodes w2)" by (rule dom_data_of[of w2 _ "Some (k, v)"]) (simp add: w2)
  have lm2: "lhms w2 this = Some m1" by (simp add: w2 lm1)
  from insert_to_list_spec[OF lm2 pt ad ld] fresh[OF tfp] obtain w3 where
    i3: "insert_to_list this ?a w2 = Some w3"
    and w3: "nxt_of w3 = (nxt_of w2)(?a \<mapsto> tail m1, l \<mapsto> ?a)"
      "prev_of w3 = (prev_of w2)(?a \<mapsto> l, tail m1 \<mapsto> ?a)"
      "data_of w3 = data_of w2" "lhms w3 = lhms w2" "last_alloc w3 = last_alloc w2"
      "\<forall>x. x \<noteq> ?a \<and> x \<noteq> l \<and> x \<noteq> tail m1 \<longrightarrow> nodes w3 x = nodes w2 x"
    by metis
  from bk1 have sz: "table_size m1 \<noteq> 0" "length t1 = table_size m1" by (simp_all add: buckets_ok_iff)
  let ?i = "H k mod table_size m1"
  let ?m4 = "m1\<lparr>table := Some (t1[?i := ?a # t1 ! ?i])\<rparr>"
  let ?m5 = "?m4\<lparr>element_count := element_count ?m4 + 1\<rparr>"
  let ?w5 = "set_lhm this ?m5 (set_lhm this ?m4 w3)"
  have "data_of w3 ?a = Some (Some (k, v))" by (simp add: w3 w2)
  then obtain n where n: "nodes w3 ?a = Some n" "data n = Some (k, v)"
    by (auto simp: data_of_def)
  have i4: "insert_to_table H this ?a w3 = Some (set_lhm this ?m4 w3)"
    using n sz t1 lm2 by (simp add: insert_to_table_def w3 get_bucket_index_def)
  have res: "insert_lhm H this (k, v) w = Some ((\<lparr>it_node = ?a, it_map = this\<rparr>, True), ?w5)"
    using find_node_absent[OF inv abs] m g n2 i3 i4 by (simp add: insert_lhm_def)
  have ol5: "order_list ?w5 ?m5 (es @ [(?a, k, v)])"
  proof (rule order_list_snoc[OF ol1])
    show "?a = Suc (last_alloc w1)" by (simp add: w1)
    show "l = last (head m1 # map fst es)" by (rule l_def)
    show "nxt_of ?w5 = (nxt_of w1)(?a \<mapsto> tail m1, l \<mapsto> ?a)" by (simp add: w3 w2)
    show "prev_of ?w5 = (prev_of w1)(?a \<mapsto> l, tail m1 \<mapsto> ?a)" by (simp add: w3 w2)
    show "data_of ?w5 = (data_of w1)(?a \<mapsto> Some (k, v))" by (simp add: w3 w2)
    show "last_alloc ?w5 = ?a" by (simp add: w3 w2)
  qed simp_all
  have anotin: "?a \<notin> fst ` set es"
    using fresh by (auto simp: footprint_def)
  have bk5: "buckets_ok H (t1[?i := ?a # t1 ! ?i]) (table_size m1) (es @ [(?a, k, v)])"
    using bk1 anotin by (rule buckets_ok_insert)
  have inv5: "lhm_inv H ?w5 this (es @ [(?a, k, v)])"
    using ol5 bk5 keys abs cnt1
    by (intro lhm_invI[where m = ?m5 and t = "t1[?i := ?a # t1 ! ?i]"]) simp_all
  have mod: "modifies w ?w5 this (set (footprint m es))"
    unfolding modifies_def
  proof (intro conjI allI impI)
    fix b assume "b \<noteq> this"
    then show "lhms ?w5 b = lhms w b" by (simp add: w3 w2 w1)
  next
    fix x assume x: "x \<notin> set (footprint m es) \<and> x \<le> last_alloc w"
    with lfp tfp fp1 have "x \<noteq> ?a \<and> x \<noteq> l \<and> x \<noteq> tail m1" by auto
    with w3(6) w2(6) w1(2) show "nodes ?w5 x = nodes w x" by simp
  next
    show "last_alloc w \<le> last_alloc ?w5" by (simp add: w3 w2)
  qed
  show ?thesis
    using res inv5 mod m1 by (intro exI[of _ ?w5] exI[of _ ?m5]) (simp add: w3 w2)
qed

subsection \<open>Construction\<close>

lemma linked_hashmap_spec:
  "\<exists>w' m'. linked_hashmap this w = Some w' \<and> lhm_inv H w' this [] \<and> lhms w' this = Some m'
     \<and> table_size m' = 16 \<and> element_count m' = 0
     \<and> head m' = Suc (last_alloc w) \<and> tail m' = Suc (Suc (last_alloc w))
     \<and> modifies w w' this {} \<and> last_alloc w' = Suc (Suc (last_alloc w))"
proof -
  let ?h = "Suc (last_alloc w)" and ?t = "Suc (Suc (last_alloc w))"
  from new_Node_spec[of None w] obtain w1 where
    n1: "new_Node None w = (?h, w1)"
    and w1: "nxt_of w1 = (nxt_of w)(?h \<mapsto> nullptr)" "prev_of w1 = (prev_of w)(?h \<mapsto> nullptr)"
      "data_of w1 = (data_of w)(?h \<mapsto> None)" "lhms w1 = lhms w"
      "last_alloc w1 = ?h" "\<forall>x. x \<noteq> ?h \<longrightarrow> nodes w1 x = nodes w x"
    by auto
  from new_Node_spec[of None w1] obtain w2 where
    n2: "new_Node None w1 = (?t, w2)"
    and w2: "nxt_of w2 = (nxt_of w1)(?t \<mapsto> nullptr)" "prev_of w2 = (prev_of w1)(?t \<mapsto> nullptr)"
      "data_of w2 = (data_of w1)(?t \<mapsto> None)" "lhms w2 = lhms w1"
      "last_alloc w2 = ?t" "\<forall>x. x \<noteq> ?t \<longrightarrow> nodes w2 x = nodes w1 x"
    by (auto simp: w1)
  let ?m3 = "\<lparr>table = None, table_size = 0, element_count = 0, head = ?h, tail = ?t\<rparr>"
  let ?w3 = "set_lhm this ?m3 w2"
  have "?h \<in> dom (nodes ?w3)" by (rule dom_data_of[of _ _ None]) (simp add: w2 w1)
  from set_nxt_spec[OF this, of ?t] obtain w4 where w4: "set_nxt ?h ?t ?w3 = Some w4"
    "nxt_of w4 = (nxt_of ?w3)(?h \<mapsto> ?t)" "prev_of w4 = prev_of ?w3" "data_of w4 = data_of ?w3"
    "lhms w4 = lhms ?w3" "last_alloc w4 = last_alloc ?w3" "dom (nodes w4) = dom (nodes ?w3)"
    "\<forall>x. x \<noteq> ?h \<longrightarrow> nodes w4 x = nodes ?w3 x" by blast
  have "?t \<in> dom (nodes w4)" by (rule dom_data_of[of _ _ None]) (simp add: w4 w2 w1)
  from set_prev_spec[OF this, of ?h] obtain w5 where w5: "set_prev ?t ?h w4 = Some w5"
    "prev_of w5 = (prev_of w4)(?t \<mapsto> ?h)" "nxt_of w5 = nxt_of w4" "data_of w5 = data_of w4"
    "lhms w5 = lhms w4" "last_alloc w5 = last_alloc w4" "dom (nodes w5) = dom (nodes w4)"
    "\<forall>x. x \<noteq> ?t \<longrightarrow> nodes w5 x = nodes w4 x" by blast
  let ?m6 = "?m3\<lparr>table_size := 16, table := Some (replicate 16 [])\<rparr>"
  let ?w6 = "set_lhm this ?m6 w5"
  have r: "linked_hashmap this w = Some ?w6"
    using n1 n2 w4(1) w5(1)
    by (simp add: linked_hashmap_def init_table_def INITIAL_CAPACITY_def w5 w4)
  have ol: "order_list ?w6 ?m6 []"
    by (simp add: order_list_def footprint_def w5 w4 w2 w1)
  have inv: "lhm_inv H ?w6 this []"
    using ol by (intro lhm_invI[where m = ?m6 and t = "replicate 16 []"]) (simp_all add: buckets_ok_empty)
  have mod: "modifies w ?w6 this {}"
    by (simp add: modifies_def w5 w4 w2 w1)
  show ?thesis using r inv mod
    by (intro exI[of _ ?w6] exI[of _ ?m6]) (simp add: w5 w4 w2)
qed

subsection \<open>Walking the order list\<close>

lemma iterate_loop_spec:
  assumes m: "lhms w this = Some m"
    and "path w c es (tail m)" and "nullptr \<notin> fst ` set es"
  shows "iterate_loop w \<lparr>it_node = c, it_map = this\<rparr> \<lparr>it_node = tail m, it_map = this\<rparr> out
           = Some (out @ map snd es)"
  using assms(2-)
proof (induction es arbitrary: c out)
  case Nil
  then show ?case by (subst iterate_loop.simps) (simp add: iterator_eq_def)
next
  case (Cons e es)
  obtain a kv where e: "e = (a, kv)" by (cases e)
  from path_node[OF Cons.prems(1)[unfolded e]] obtain n where n: "c = a" "a \<noteq> tail m"
    "nodes w a = Some n" "data n = Some kv" "path w (nxt n) es (tail m)" by blast
  from Cons.prems(2) have a0: "a \<noteq> nullptr" and rest: "nullptr \<notin> fst ` set es"
    unfolding e by auto
  have inc: "iterator_pre_inc w \<lparr>it_node = a, it_map = this\<rparr>
      = Some (Inr \<lparr>it_node = nxt n, it_map = this\<rparr>)"
    using a0 m n by (simp add: iterator_pre_inc_def)
  have der: "iterator_deref w \<lparr>it_node = a, it_map = this\<rparr> = Some kv"
    using n by (simp add: iterator_deref_def)
  from Cons.IH[OF n(5) rest, of "out @ [kv]"] show ?case
    unfolding e using n(1,2) inc der
    by (subst iterate_loop.simps) (simp add: iterator_eq_def)
qed

lemma iterate_spec:
  assumes "lhm_inv H w this es"
  shows "iterate this w = Some (map snd es)"
proof -
  from assms obtain m t where m: "lhms w this = Some m" "order_list w m es" by (rule lhm_invD)
  from order_list_path[OF m(2)] obtain b where b: "nxt_of w (head m) = Some b"
    "path w b es (tail m)" by blast
  then obtain hn where hn: "nodes w (head m) = Some hn" "nxt hn = b" by (auto simp: nxt_of_def)
  have "nullptr \<notin> fst ` set es"
    using order_list_entry_pos[OF m(2)] by force
  from iterate_loop_spec[OF m(1) b(2) this, of "[]"] m hn show ?thesis
    by (simp add: iterate_def begin_lhm_def end_lhm_def)
qed

subsection \<open>Frames\<close>

lemma modifies_refl: "modifies w w this S"
  by (simp add: modifies_def)

lemma modifies_trans:
  assumes "modifies w w1 this S" and "modifies w1 w2 this S'"
    and "\<forall>x \<in> S'. x \<in> S \<or> last_alloc w < x"
  shows "modifies w w2 this S"
  unfolding modifies_def
proof (intro conjI allI impI)
  fix b assume "b \<noteq> this"
  with assms(1,2) show "lhms w2 b = lhms w b" by (simp add: modifies_def)
next
  fix a assume a: "a \<notin> S \<and> a \<le> last_alloc w"
  with assms(3) have "a \<notin> S'" by auto
  moreover from a assms(1) have "a \<le> last_alloc w1" by (simp add: modifies_def)
  ultimately have "nodes w2 a = nodes w1 a" using assms(2) by (simp add: modifies_def)
  also from a assms(1) have "nodes w1 a = nodes w a" by (simp add: modifies_def)
  finally show "nodes w2 a = nodes w a" .
next
  from assms(1,2) show "last_alloc w \<le> last_alloc w2" by (simp add: modifies_def)
qed

lemma modifies_mono: "modifies w w' this S \<Longrightarrow> S \<subseteq> S' \<Longrightarrow> modifies w w' this S'"
  unfolding modifies_def by blast

lemma footprint_snoc:
  "set (footprint m' (es @ [(a, kv)])) = insert a (set (footprint m' es))"
  by (auto simp: footprint_def)

subsection \<open>The load factor\<close>

lemma load_ok_insert:
  assumes "load_ok m" and "0 < table_size m"
    and "table_size m' = (if load_factor_reached m then 2 * table_size m else table_size m)"
    and "element_count m' = element_count m + 1"
  shows "load_ok m'"
proof -
  from assms(1) obtain q where q: "table_size m = 4 * q" and le: "element_count m \<le> 3 * q"
    by (auto simp: load_ok_def dvd_def)
  from assms(2) q have q0: "0 < q" by simp
  show ?thesis
  proof (cases "load_factor_reached m")
    case True
    with q le have "element_count m = 3 * q" by (simp add: load_factor_reached_def)
    with q0 show ?thesis using assms(3,4) True q
      by (simp add: load_ok_def)
  next
    case False
    with q have "element_count m < 3 * q" by (simp add: load_factor_reached_def)
    with assms(3,4) False q show ?thesis by (simp add: load_ok_def)
  qed
qed

lemma lhm_inv_size_pos: "lhm_inv H w this es \<Longrightarrow> lhms w this = Some m \<Longrightarrow> 0 < table_size m"
  by (auto dest!: lhm_invD' simp: buckets_ok_iff)

lemma lhm_wfD:
  assumes "lhm_wf H w this es"
  shows "lhm_inv H w this es" and "\<exists>m. lhms w this = Some m \<and> load_ok m"
  using assms by (auto simp: lhm_wf_def split: option.splits)

lemma lhm_wfI: "lhm_inv H w this es \<Longrightarrow> lhms w this = Some m \<Longrightarrow> load_ok m \<Longrightarrow> lhm_wf H w this es"
  by (simp add: lhm_wf_def)

lemma insert_all_spec:
  assumes "lhm_inv H w this es" and "lhms w this = Some m"
    and "distinct (map fst kvs)" and "fst ` set kvs \<inter> keys_of es = {}"
  shows "\<exists>w' m' es'. insert_all H this kvs w = Some w' \<and> lhm_inv H w' this (es @ es')
           \<and> map snd es' = kvs \<and> lhms w' this = Some m' \<and> head m' = head m \<and> tail m' = tail m
           \<and> (load_ok m \<longrightarrow> load_ok m')
           \<and> modifies w w' this (set (footprint m es))
           \<and> (\<forall>x \<in> fst ` set es'. last_alloc w < x)"
  using assms
proof (induction kvs arbitrary: w es m)
  case Nil
  then show ?case by (auto simp: modifies_refl)
next
  case (Cons kv kvs)
  obtain k v where kv: "kv = (k, v)" by (cases kv)
  have abs: "k \<notin> (\<lambda>e. fst (snd e)) ` set es"
    using Cons.prems(4) by (auto simp: kv keys_of_def)
  let ?a = "Suc (last_alloc w)"
  from insert_absent[OF Cons.prems(1,2) abs, of v] obtain w1 m1 where
    i: "insert_lhm H this (k, v) w = Some ((\<lparr>it_node = ?a, it_map = this\<rparr>, True), w1)"
    and inv1: "lhm_inv H w1 this (es @ [(?a, k, v)])"
    and m1: "lhms w1 this = Some m1" "head m1 = head m" "tail m1 = tail m"
      "table_size m1 = (if load_factor_reached m then 2 * table_size m else table_size m)"
      "element_count m1 = element_count m + 1"
    and mod1: "modifies w w1 this (set (footprint m es))"
    and la1: "last_alloc w1 = ?a"
    by blast
  have d: "distinct (map fst kvs)" and disj: "fst ` set kvs \<inter> keys_of (es @ [(?a, k, v)]) = {}"
    using Cons.prems(3,4) by (auto simp: kv keys_of_def)
  from Cons.IH[OF inv1 m1(1) d disj] obtain w' m' es' where
    r: "insert_all H this kvs w1 = Some w'"
    and inv': "lhm_inv H w' this ((es @ [(?a, k, v)]) @ es')"
    and es': "map snd es' = kvs"
    and m': "lhms w' this = Some m'" "head m' = head m1" "tail m' = tail m1"
      "load_ok m1 \<longrightarrow> load_ok m'"
    and mod': "modifies w1 w' this (set (footprint m1 (es @ [(?a, k, v)])))"
    and fresh': "\<forall>x \<in> fst ` set es'. last_alloc w1 < x"
    by blast
  have fp: "set (footprint m1 (es @ [(?a, k, v)])) = insert ?a (set (footprint m es))"
    by (auto simp: footprint_def m1)
  have mod: "modifies w w' this (set (footprint m es))"
    using mod1 mod' by (rule modifies_trans) (auto simp: fp)
  have lo: "load_ok m \<longrightarrow> load_ok m'"
    using m'(4) load_ok_insert[OF _ lhm_inv_size_pos[OF Cons.prems(1,2)] m1(4,5)] by blast
  show ?case
    using i r inv' es' m' m1 mod lo fresh' la1
    by (intro exI[of _ w'] exI[of _ m'] exI[of _ "(?a, k, v) # es'"]) (auto simp: kv)
qed

lemma rehash_changes:
  assumes "lhm_inv H w this es" and "rehash H this w = Some w1"
  shows "w1 \<noteq> w"
proof -
  from assms(1) obtain m where m: "lhms w this = Some m" by (rule lhm_invD)
  from rehash_spec[OF assms(1) m] assms(2) obtain t' where
    "w1 = set_lhm this (m\<lparr>table := Some t', table_size := 2 * table_size m\<rparr>) w" by auto
  then have "map_option table_size (lhms w1 this) = Some (2 * table_size m)" by simp
  moreover have "map_option table_size (lhms w this) = Some (table_size m)" using m by simp
  moreover have "0 < table_size m" using assms(1) m by (rule lhm_inv_size_pos)
  ultimately show ?thesis by auto
qed

lemma entry_deref:
  assumes "lhm_inv H w this es" and "(a, kv) \<in> set es"
  shows "iterator_deref w \<lparr>it_node = a, it_map = this\<rparr> = Some kv"
    and "const_iterator_deref w \<lparr>cit_node = a, cit_map = this\<rparr> = Some kv"
    and "value_at w a = Some (snd kv)"
proof -
  from assms(1) obtain m where "order_list w m es" by (rule lhm_invD)
  from entry_node[OF order_list_data[OF this] assms(2)]
  show "iterator_deref w \<lparr>it_node = a, it_map = this\<rparr> = Some kv"
    and "const_iterator_deref w \<lparr>cit_node = a, cit_map = this\<rparr> = Some kv"
    and "value_at w a = Some (snd kv)"
    by (auto simp: iterator_deref_def const_iterator_deref_def value_at_def)
qed

lemma entry_not_end:
  assumes "lhm_inv H w this es" and "(a, kv) \<in> set es"
  shows "end_lhm this w \<noteq> Some \<lparr>it_node = a, it_map = this\<rparr>"
    and "cend this w \<noteq> Some \<lparr>cit_node = a, cit_map = this\<rparr>"
    and "end_lhm this w \<noteq> None" and "cend this w \<noteq> None"
proof -
  from assms(1) obtain m where m: "lhms w this = Some m" "order_list w m es" by (rule lhm_invD)
  from order_list_entry_pos[OF m(2) assms(2)] m(1)
  show "end_lhm this w \<noteq> Some \<lparr>it_node = a, it_map = this\<rparr>"
    and "cend this w \<noteq> Some \<lparr>cit_node = a, cit_map = this\<rparr>"
    and "end_lhm this w \<noteq> None" and "cend this w \<noteq> None"
    by (auto simp: end_lhm_def cend_def)
qed

lemma end_defined:
  assumes "lhm_inv H w this es"
  shows "end_lhm this w \<noteq> None" and "cend this w \<noteq> None"
proof -
  from assms(1) obtain m where m: "lhms w this = Some m" by (rule lhm_invD)
  then show "end_lhm this w \<noteq> None" and "cend this w \<noteq> None"
    by (auto simp: end_lhm_def cend_def)
qed

lemma key_present:
  assumes "k \<in> keys_of es"
  obtains a v where "(a, k, v) \<in> set es"
  using assms by (force simp: keys_of_def)

text \<open>
  C9. An insert whose key is already present leaves the whole world as it was: the table
  size, the count, the order list and the chains. No bound on the load is assumed, so this
  covers a container at or above the growth threshold; a rehash would have changed the
  world.
\<close>

theorem insert_existing_noop:
  assumes "lhm_inv H w this es" and "(a, k, v) \<in> set es"
  shows "insert_lhm H this (k, v') w = Some ((\<lparr>it_node = a, it_map = this\<rparr>, False), w)
         \<and> (\<forall>w1. rehash H this w = Some w1 \<longrightarrow> w1 \<noteq> w)"
  using insert_present[OF assms] rehash_changes[OF assms(1)] by blast

theorem insert_existing_noop_witness:
  "case Option.bind (linked_hashmap 1 w_empty)
          (insert_all id 1 [(1, 10), (2, 20), (3, 30), (4, 40), (5, 50), (6, 60), (7, 70),
             (8, 80), (9, 90), (10, 100), (11, 110), (12, 120)]) of
     None \<Rightarrow> False
   | Some w \<Rightarrow>
       lhm_inv id w 1 [(3, 1, 10), (4, 2, 20), (5, 3, 30), (6, 4, 40), (7, 5, 50), (8, 6, 60),
          (9, 7, 70), (10, 8, 80), (11, 9, 90), (12, 10, 100), (13, 11, 110), (14, 12, 120)]
       \<and> (case lhms w 1 of None \<Rightarrow> False | Some m \<Rightarrow> load_factor_reached m)
       \<and> insert_lhm id 1 (5, 99) w = Some ((\<lparr>it_node = 7, it_map = 1\<rparr>, False), w)
       \<and> (\<forall>w1. rehash id 1 w = Some w1 \<longrightarrow> w1 \<noteq> w)"
proof -
  let ?es = "[(3, 1, 10), (4, 2, 20), (5, 3, 30), (6, 4, 40), (7, 5, 50), (8, 6, 60),
          (9, 7, 70), (10, 8, 80), (11, 9, 90), (12, 10, 100), (13, 11, 110), (14, 12, 120)]
          :: (nat, nat) entry list"
  have e: "case Option.bind (linked_hashmap 1 w_empty)
          (insert_all id 1 [(1, 10), (2, 20), (3, 30), (4, 40), (5, 50), (6, 60), (7, 70),
             (8, 80), (9, 90), (10, 100), (11, 110), (12, 120)]) of
     None \<Rightarrow> False
   | Some w \<Rightarrow> lhm_inv id w 1 ?es
       \<and> (case lhms w 1 of None \<Rightarrow> False | Some m \<Rightarrow> load_factor_reached m)"
    by code_simp
  then obtain w where w: "Option.bind (linked_hashmap 1 w_empty)
          (insert_all id 1 [(1, 10), (2, 20), (3, 30), (4, 40), (5, 50), (6, 60), (7, 70),
             (8, 80), (9, 90), (10, 100), (11, 110), (12, 120)]) = Some w"
    "lhm_inv id w 1 ?es" "case lhms w 1 of None \<Rightarrow> False | Some m \<Rightarrow> load_factor_reached m"
    by (auto split: option.splits)
  have "(7, 5, 50) \<in> set ?es" by simp
  from insert_existing_noop[OF w(2) this, of 99] w show ?thesis by simp
qed

text \<open>
  C2. In a container holding the entries \<open>es\<close>: inserting a key that node \<open>a\<close> holds
  with value \<open>v\<close> returns the cursor at \<open>a\<close> and \<open>False\<close>, node \<open>a\<close> still holds \<open>v\<close>
  and the iteration order is that of \<open>es\<close>; inserting an absent key returns a cursor at
  a new node that holds the new pair, and \<open>True\<close>, and the new pair is the last one of
  the iteration.
\<close>

theorem insert_result:
  assumes "lhm_inv H w this es"
  shows "((a, k, v) \<in> set es \<longrightarrow>
           (\<exists>w'. insert_lhm H this (k, v') w = Some ((\<lparr>it_node = a, it_map = this\<rparr>, False), w')
              \<and> iterator_deref w' \<lparr>it_node = a, it_map = this\<rparr> = Some (k, v)
              \<and> value_at w' a = Some v
              \<and> iterate this w = Some (map snd es) \<and> iterate this w' = Some (map snd es)))
       \<and> (k \<notin> keys_of es \<longrightarrow>
           (\<exists>b w'. insert_lhm H this (k, v') w = Some ((\<lparr>it_node = b, it_map = this\<rparr>, True), w')
              \<and> b \<notin> fst ` set es
              \<and> iterator_deref w' \<lparr>it_node = b, it_map = this\<rparr> = Some (k, v')
              \<and> iterate this w' = Some (map snd es @ [(k, v')])
              \<and> lhm_inv H w' this (es @ [(b, k, v')])))"
proof (intro conjI impI)
  assume mem: "(a, k, v) \<in> set es"
  from insert_present[OF assms mem, of v'] entry_deref(1,3)[OF assms mem] iterate_spec[OF assms]
  show "\<exists>w'. insert_lhm H this (k, v') w = Some ((\<lparr>it_node = a, it_map = this\<rparr>, False), w')
              \<and> iterator_deref w' \<lparr>it_node = a, it_map = this\<rparr> = Some (k, v)
              \<and> value_at w' a = Some v
              \<and> iterate this w = Some (map snd es) \<and> iterate this w' = Some (map snd es)"
    by simp
next
  assume abs: "k \<notin> keys_of es"
  from assms obtain m where m: "lhms w this = Some m" "order_list w m es" by (rule lhm_invD)
  let ?b = "Suc (last_alloc w)"
  from insert_absent[OF assms m(1) abs[unfolded keys_of_def], of v'] obtain w' where
    i: "insert_lhm H this (k, v') w = Some ((\<lparr>it_node = ?b, it_map = this\<rparr>, True), w')"
    and inv': "lhm_inv H w' this (es @ [(?b, k, v')])" by blast
  have "?b \<notin> fst ` set es"
    using order_list_entry_pos[OF m(2)] by force
  moreover have "iterator_deref w' \<lparr>it_node = ?b, it_map = this\<rparr> = Some (k, v')"
    by (rule entry_deref(1)[OF inv']) simp
  moreover have "iterate this w' = Some (map snd es @ [(k, v')])"
    using iterate_spec[OF inv'] by simp
  ultimately show "\<exists>b w'. insert_lhm H this (k, v') w = Some ((\<lparr>it_node = b, it_map = this\<rparr>, True), w')
              \<and> b \<notin> fst ` set es
              \<and> iterator_deref w' \<lparr>it_node = b, it_map = this\<rparr> = Some (k, v')
              \<and> iterate this w' = Some (map snd es @ [(k, v')])
              \<and> lhm_inv H w' this (es @ [(b, k, v')])"
    using i inv' by blast
qed

theorem insert_result_witness:
  "case Option.bind (linked_hashmap 1 w_empty) (insert_all id 1 [(1, 10), (2, 20), (3, 30)]) of
     None \<Rightarrow> False
   | Some w \<Rightarrow>
       lhm_inv id w 1 [(3, 1, 10), (4, 2, 20), (5, 3, 30)]
       \<and> (\<exists>w'. insert_lhm id 1 (1, 99) w = Some ((\<lparr>it_node = 3, it_map = 1\<rparr>, False), w')
              \<and> iterator_deref w' \<lparr>it_node = 3, it_map = 1\<rparr> = Some (1, 10)
              \<and> value_at w' 3 = Some 10
              \<and> iterate 1 w' = Some [(1, 10), (2, 20), (3, 30)])
       \<and> (\<exists>b w'. insert_lhm id 1 (7, 70) w = Some ((\<lparr>it_node = b, it_map = 1\<rparr>, True), w')
              \<and> iterator_deref w' \<lparr>it_node = b, it_map = 1\<rparr> = Some (7, 70)
              \<and> iterate 1 w' = Some [(1, 10), (2, 20), (3, 30), (7, 70)])"
proof -
  let ?es = "[(3, 1, 10), (4, 2, 20), (5, 3, 30)] :: (nat, nat) entry list"
  have "case Option.bind (linked_hashmap 1 w_empty) (insert_all id 1 [(1, 10), (2, 20), (3, 30)]) of
     None \<Rightarrow> False | Some w \<Rightarrow> lhm_inv id w 1 ?es"
    by code_simp
  then obtain w where w: "Option.bind (linked_hashmap 1 w_empty)
      (insert_all id 1 [(1, 10), (2, 20), (3, 30)]) = Some w" "lhm_inv id w 1 ?es"
    by (auto split: option.splits)
  have p: "(3, 1, 10) \<in> set ?es" and a: "7 \<notin> keys_of ?es" by (simp_all add: keys_of_def)
  from insert_result[OF w(2), of 3 1 10 99] p
    insert_result[OF w(2), of 3 7 10 70] a w
  show ?thesis by simp blast
qed

text \<open>
  C8. In a container holding the entries \<open>es\<close>: \<open>at\<close> raises \<open>index_out_of_bound\<close>
  exactly for the absent keys and otherwise returns the node that holds the key's value;
  \<open>count\<close> is 1 for a present key and 0 for an absent one; \<open>find\<close> is \<open>end()\<close> exactly
  for the absent keys and otherwise a cursor whose pair has the key. The same holds for
  the read-only overloads.
\<close>

theorem lookup_consistent:
  assumes "lhm_inv H w this es"
  shows "(at H this k w = Some (Inl index_out_of_bound) \<longleftrightarrow> k \<notin> keys_of es)
       \<and> (at_const H this k w = Some (Inl index_out_of_bound) \<longleftrightarrow> k \<notin> keys_of es)
       \<and> count_lhm H this k w = Some (if k \<in> keys_of es then 1 else 0)
       \<and> end_lhm this w \<noteq> None \<and> cend this w \<noteq> None
       \<and> (find_lhm H this k w = end_lhm this w \<longleftrightarrow> k \<notin> keys_of es)
       \<and> (find_const H this k w = cend this w \<longleftrightarrow> k \<notin> keys_of es)
       \<and> ((a, k, v) \<in> set es \<longrightarrow>
            at H this k w = Some (Inr a) \<and> at_const H this k w = Some (Inr a)
            \<and> value_at w a = Some v
            \<and> find_lhm H this k w = Some \<lparr>it_node = a, it_map = this\<rparr>
            \<and> iterator_deref w \<lparr>it_node = a, it_map = this\<rparr> = Some (k, v)
            \<and> find_const H this k w = Some \<lparr>cit_node = a, cit_map = this\<rparr>
            \<and> const_iterator_deref w \<lparr>cit_node = a, cit_map = this\<rparr> = Some (k, v))"
proof (cases "k \<in> keys_of es")
  case True
  then obtain a' v' where mem: "(a', k, v') \<in> set es" by (rule key_present)
  from assms obtain m where m: "order_list w m es" "distinct (map (\<lambda>e. fst (snd e)) es)"
    by (rule lhm_invD)
  have uniq: "a = a' \<and> v = v'" if "(a, k, v) \<in> set es"
  proof -
    from m(2) that mem have "(a, k, v) = (a', k, v')"
      by (metis (mono_tags, lifting) distinct_map fst_conv inj_onD snd_conv)
    then show ?thesis by simp
  qed
  from find_node_present[OF assms mem] entry_deref[OF assms mem] entry_not_end[OF assms mem]
    True uniq
  show ?thesis
    by (auto simp: at_def at_const_def count_lhm_def find_lhm_def find_const_def)
next
  case False
  then have "\<And>a v. (a, k, v) \<notin> set es" by (force simp: keys_of_def)
  with find_node_absent[OF assms False[unfolded keys_of_def]] end_defined[OF assms] False
  show ?thesis
    by (auto simp: at_def at_const_def count_lhm_def find_lhm_def find_const_def)
qed

theorem lookup_consistent_witness:
  "case Option.bind (linked_hashmap 1 w_empty) (insert_all id 1 [(1, 10), (2, 20), (3, 30)]) of
     None \<Rightarrow> False
   | Some w \<Rightarrow>
       lhm_inv id w 1 [(3, 1, 10), (4, 2, 20), (5, 3, 30)]
       \<and> at id 1 2 w = Some (Inr 4) \<and> value_at w 4 = Some 20
       \<and> count_lhm id 1 2 w = Some 1
       \<and> find_lhm id 1 2 w = Some \<lparr>it_node = 4, it_map = 1\<rparr>
       \<and> at id 1 7 w = Some (Inl index_out_of_bound)
       \<and> count_lhm id 1 7 w = Some 0
       \<and> find_lhm id 1 7 w = end_lhm 1 w"
proof -
  let ?es = "[(3, 1, 10), (4, 2, 20), (5, 3, 30)] :: (nat, nat) entry list"
  have "case Option.bind (linked_hashmap 1 w_empty) (insert_all id 1 [(1, 10), (2, 20), (3, 30)]) of
     None \<Rightarrow> False | Some w \<Rightarrow> lhm_inv id w 1 ?es"
    by code_simp
  then obtain w where w: "Option.bind (linked_hashmap 1 w_empty)
      (insert_all id 1 [(1, 10), (2, 20), (3, 30)]) = Some w" "lhm_inv id w 1 ?es"
    by (auto split: option.splits)
  have k: "keys_of ?es = {1, 2, 3}" by (auto simp: keys_of_def)
  from lookup_consistent[OF w(2), of 2 4 20] lookup_consistent[OF w(2), of 7 0 0] w k
  show ?thesis by simp
qed

lemma find_entries:
  assumes "lhm_inv H w this es" and "e \<in> set es"
  shows "find_lhm H this (fst (snd e)) w = Some \<lparr>it_node = fst e, it_map = this\<rparr>
       \<and> end_lhm this w \<noteq> Some \<lparr>it_node = fst e, it_map = this\<rparr>
       \<and> iterator_deref w \<lparr>it_node = fst e, it_map = this\<rparr> = Some (snd e)"
proof -
  obtain a k v where e: "e = (a, k, v)" by (cases e)
  from find_node_present[OF assms(1) assms(2)[unfolded e]] entry_deref(1)[OF assms(1) assms(2)[unfolded e]]
    entry_not_end(1)[OF assms(1) assms(2)[unfolded e]]
  show ?thesis by (simp add: e find_lhm_def)
qed

lemma find_pairs:
  assumes "lhm_inv H w this es" and "kv \<in> set (map snd es)"
  shows "\<exists>it. find_lhm H this (fst kv) w = Some it \<and> end_lhm this w \<noteq> Some it
           \<and> iterator_deref w it = Some kv"
proof -
  from assms(2) obtain e where e: "e \<in> set es" "snd e = kv" by auto
  from find_entries[OF assms(1) e(1)] e(2) show ?thesis by auto
qed

text \<open>
  C1. Inserting pairs with distinct keys into a new container, or with distinct new keys
  into any container, succeeds however long the list is (so across any number of growth
  thresholds); walking the container from \<open>begin()\<close> to \<open>end()\<close> then yields the old pairs
  followed by the new ones in the order of insertion, and \<open>find\<close> succeeds for each of them.
  A rehash leaves the nodes as they are: the walk yields the same pairs in the same order,
  and \<open>find\<close> returns the same node for every key.
\<close>

theorem insertion_order_kept:
  "(distinct (map fst kvs) \<longrightarrow>
      (\<exists>w0 w'. linked_hashmap this w = Some w0 \<and> insert_all H this kvs w0 = Some w'
         \<and> iterate this w' = Some kvs
         \<and> (\<forall>kv \<in> set kvs. \<exists>it. find_lhm H this (fst kv) w' = Some it
                \<and> end_lhm this w' \<noteq> Some it \<and> iterator_deref w' it = Some kv)))
   \<and> (lhm_inv H w this es \<and> distinct (map fst kvs) \<and> fst ` set kvs \<inter> keys_of es = {} \<longrightarrow>
      (\<exists>w'. insert_all H this kvs w = Some w'
         \<and> iterate this w = Some (map snd es) \<and> iterate this w' = Some (map snd es @ kvs)
         \<and> (\<forall>kv \<in> set (map snd es @ kvs). \<exists>it. find_lhm H this (fst kv) w' = Some it
                \<and> end_lhm this w' \<noteq> Some it \<and> iterator_deref w' it = Some kv)))
   \<and> (lhm_inv H w this es \<longrightarrow>
      (\<exists>w'. rehash H this w = Some w' \<and> nodes w' = nodes w \<and> lhm_inv H w' this es
         \<and> iterate this w = Some (map snd es) \<and> iterate this w' = Some (map snd es)
         \<and> (\<forall>e \<in> set es. find_lhm H this (fst (snd e)) w = Some \<lparr>it_node = fst e, it_map = this\<rparr>
                \<and> find_lhm H this (fst (snd e)) w' = Some \<lparr>it_node = fst e, it_map = this\<rparr>
                \<and> end_lhm this w' \<noteq> Some \<lparr>it_node = fst e, it_map = this\<rparr>
                \<and> iterator_deref w' \<lparr>it_node = fst e, it_map = this\<rparr> = Some (snd e))))"
proof (intro conjI impI)
  assume d: "distinct (map fst kvs)"
  from linked_hashmap_spec[of this w H] obtain w0 m0 where
    c: "linked_hashmap this w = Some w0" and inv0: "lhm_inv H w0 this []"
    and m0: "lhms w0 this = Some m0" by blast
  from insert_all_spec[OF inv0 m0 d] obtain w' es' where
    r: "insert_all H this kvs w0 = Some w'" and inv': "lhm_inv H w' this es'"
    and es': "map snd es' = kvs"
    by (auto simp: keys_of_def)
  from iterate_spec[OF inv'] es' have "iterate this w' = Some kvs" by simp
  moreover have "\<forall>kv \<in> set kvs. \<exists>it. find_lhm H this (fst kv) w' = Some it
      \<and> end_lhm this w' \<noteq> Some it \<and> iterator_deref w' it = Some kv"
    using find_pairs[OF inv'] es' by blast
  ultimately show "\<exists>w0 w'. linked_hashmap this w = Some w0 \<and> insert_all H this kvs w0 = Some w'
         \<and> iterate this w' = Some kvs
         \<and> (\<forall>kv \<in> set kvs. \<exists>it. find_lhm H this (fst kv) w' = Some it
                \<and> end_lhm this w' \<noteq> Some it \<and> iterator_deref w' it = Some kv)"
    using c r by blast
next
  assume a: "lhm_inv H w this es \<and> distinct (map fst kvs) \<and> fst ` set kvs \<inter> keys_of es = {}"
  then have inv: "lhm_inv H w this es" by simp
  from inv obtain m where m: "lhms w this = Some m" by (rule lhm_invD)
  from a have d: "distinct (map fst kvs)" and disj: "fst ` set kvs \<inter> keys_of es = {}"
    by simp_all
  from insert_all_spec[OF inv m d disj] obtain w' es' where
    r: "insert_all H this kvs w = Some w'" and inv': "lhm_inv H w' this (es @ es')"
    and es': "map snd es' = kvs"
    by auto
  from iterate_spec[OF inv'] es' have "iterate this w' = Some (map snd es @ kvs)" by simp
  moreover have "\<forall>kv \<in> set (map snd es @ kvs). \<exists>it. find_lhm H this (fst kv) w' = Some it
      \<and> end_lhm this w' \<noteq> Some it \<and> iterator_deref w' it = Some kv"
    using find_pairs[OF inv'] es' by simp
  ultimately show "\<exists>w'. insert_all H this kvs w = Some w'
         \<and> iterate this w = Some (map snd es) \<and> iterate this w' = Some (map snd es @ kvs)
         \<and> (\<forall>kv \<in> set (map snd es @ kvs). \<exists>it. find_lhm H this (fst kv) w' = Some it
                \<and> end_lhm this w' \<noteq> Some it \<and> iterator_deref w' it = Some kv)"
    using r iterate_spec[OF inv] by blast
next
  assume inv: "lhm_inv H w this es"
  from inv obtain m where m: "lhms w this = Some m" by (rule lhm_invD)
  from rehash_spec[OF inv m] obtain w' where
    r: "rehash H this w = Some w'" and n: "nodes w' = nodes w" and inv': "lhm_inv H w' this es"
    by force
  show "\<exists>w'. rehash H this w = Some w' \<and> nodes w' = nodes w \<and> lhm_inv H w' this es
         \<and> iterate this w = Some (map snd es) \<and> iterate this w' = Some (map snd es)
         \<and> (\<forall>e \<in> set es. find_lhm H this (fst (snd e)) w = Some \<lparr>it_node = fst e, it_map = this\<rparr>
                \<and> find_lhm H this (fst (snd e)) w' = Some \<lparr>it_node = fst e, it_map = this\<rparr>
                \<and> end_lhm this w' \<noteq> Some \<lparr>it_node = fst e, it_map = this\<rparr>
                \<and> iterator_deref w' \<lparr>it_node = fst e, it_map = this\<rparr> = Some (snd e))"
    using r n inv' iterate_spec[OF inv] iterate_spec[OF inv'] find_entries[OF inv] find_entries[OF inv']
    by blast
qed

theorem insertion_order_kept_witness:
  "(\<exists>w0 w'. linked_hashmap 1 w_empty = Some w0
      \<and> insert_all id 1 [(21, 1), (5, 2), (37, 3), (2, 4), (18, 5), (34, 6), (50, 7), (9, 8),
           (11, 9), (12, 10), (13, 11), (14, 12), (15, 13), (16, 14)] w0 = Some w'
      \<and> iterate 1 w' = Some [(21, 1), (5, 2), (37, 3), (2, 4), (18, 5), (34, 6), (50, 7), (9, 8),
           (11, 9), (12, 10), (13, 11), (14, 12), (15, 13), (16, 14)]
      \<and> (\<exists>it. find_lhm id 1 37 w' = Some it \<and> end_lhm 1 w' \<noteq> Some it
             \<and> iterator_deref w' it = Some (37, 3)))
   \<and> (case Option.bind (linked_hashmap 1 w_empty) (insert_all id 1 [(1, 10), (2, 20), (3, 30)]) of
       None \<Rightarrow> False
     | Some w \<Rightarrow>
         lhm_inv id w 1 [(3, 1, 10), (4, 2, 20), (5, 3, 30)]
         \<and> (\<exists>w'. insert_all id 1 [(17, 1), (33, 2)] w = Some w'
               \<and> iterate 1 w' = Some [(1, 10), (2, 20), (3, 30), (17, 1), (33, 2)])
         \<and> (\<exists>w'. rehash id 1 w = Some w' \<and> nodes w' = nodes w
               \<and> iterate 1 w' = Some [(1, 10), (2, 20), (3, 30)]
               \<and> find_lhm id 1 2 w' = Some \<lparr>it_node = 4, it_map = 1\<rparr>))"
proof -
  let ?kvs = "[(21, 1), (5, 2), (37, 3), (2, 4), (18, 5), (34, 6), (50, 7), (9, 8),
           (11, 9), (12, 10), (13, 11), (14, 12), (15, 13), (16, 14)] :: (nat \<times> nat) list"
  let ?es = "[(3, 1, 10), (4, 2, 20), (5, 3, 30)] :: (nat, nat) entry list"
  have "distinct (map fst ?kvs)" by simp
  with insertion_order_kept[where kvs = ?kvs and this = 1 and w = w_empty and H = id and es = "[]"]
  have "\<exists>w0 w'. linked_hashmap 1 w_empty = Some w0 \<and> insert_all id 1 ?kvs w0 = Some w'
         \<and> iterate 1 w' = Some ?kvs
         \<and> (\<forall>kv \<in> set ?kvs. \<exists>it. find_lhm id 1 (fst kv) w' = Some it
                \<and> end_lhm 1 w' \<noteq> Some it \<and> iterator_deref w' it = Some kv)"
    by blast
  then have first: "\<exists>w0 w'. linked_hashmap 1 w_empty = Some w0 \<and> insert_all id 1 ?kvs w0 = Some w'
         \<and> iterate 1 w' = Some ?kvs
         \<and> (\<exists>it. find_lhm id 1 37 w' = Some it \<and> end_lhm 1 w' \<noteq> Some it
                \<and> iterator_deref w' it = Some (37, 3))"
    by fastforce
  have "case Option.bind (linked_hashmap 1 w_empty) (insert_all id 1 [(1, 10), (2, 20), (3, 30)]) of
     None \<Rightarrow> False | Some w \<Rightarrow> lhm_inv id w 1 ?es"
    by code_simp
  then obtain w where w: "Option.bind (linked_hashmap 1 w_empty)
      (insert_all id 1 [(1, 10), (2, 20), (3, 30)]) = Some w" "lhm_inv id w 1 ?es"
    by (auto split: option.splits)
  have h: "distinct (map fst [(17::nat, 1::nat), (33, 2)]) \<and> fst ` set [(17::nat, 1::nat), (33, 2)] \<inter> keys_of ?es = {}"
    by (simp add: keys_of_def)
  from insertion_order_kept[where kvs = "[(17, 1), (33, 2)]" and this = 1 and w = w and H = id and es = ?es] w(2) h
  have second: "\<exists>w'. insert_all id 1 [(17, 1), (33, 2)] w = Some w'
               \<and> iterate 1 w' = Some [(1, 10), (2, 20), (3, 30), (17, 1), (33, 2)]"
    by auto
  from insertion_order_kept[where kvs = "[]" and this = 1 and w = w and H = id and es = ?es] w(2)
  have third: "\<exists>w'. rehash id 1 w = Some w' \<and> nodes w' = nodes w
               \<and> iterate 1 w' = Some [(1, 10), (2, 20), (3, 30)]
               \<and> find_lhm id 1 2 w' = Some \<lparr>it_node = 4, it_map = 1\<rparr>"
    by fastforce
  from first second third w show ?thesis by simp
qed

lemma insert_wf:
  assumes wf: "lhm_wf H w this es" and m: "lhms w this = Some m"
  shows "\<exists>r w' m' es'. insert_lhm H this kv w = Some (r, w') \<and> lhms w' this = Some m'
           \<and> lhm_wf H w' this es' \<and> head m' = head m \<and> tail m' = tail m
           \<and> (fst kv \<in> keys_of es \<longrightarrow> w' = w \<and> es' = es \<and> snd r = False)
           \<and> (fst kv \<notin> keys_of es \<longrightarrow>
                table_size m' = (if load_factor_reached m then 2 * table_size m else table_size m)
                \<and> element_count m' = element_count m + 1
                \<and> es' = es @ [(it_node (fst r), kv)] \<and> snd r = True
                \<and> it_node (fst r) = Suc (last_alloc w))
           \<and> modifies w w' this (set (footprint m es))"
proof -
  obtain k v where kv: "kv = (k, v)" by (cases kv)
  from lhm_wfD[OF wf] m have inv: "lhm_inv H w this es" and lo: "load_ok m" by auto
  show ?thesis
  proof (cases "k \<in> keys_of es")
    case True
    then obtain a v0 where "(a, k, v0) \<in> set es" by (rule key_present)
    from insert_present[OF inv this, of v] True wf m show ?thesis
      by (auto simp: kv modifies_refl)
  next
    case False
    from insert_absent[OF inv m False[unfolded keys_of_def], of v] obtain w' m' where
      i: "insert_lhm H this (k, v) w
             = Some ((\<lparr>it_node = Suc (last_alloc w), it_map = this\<rparr>, True), w')"
      and inv': "lhm_inv H w' this (es @ [(Suc (last_alloc w), k, v)])"
      and m': "lhms w' this = Some m'" "head m' = head m" "tail m' = tail m"
        "table_size m' = (if load_factor_reached m then 2 * table_size m else table_size m)"
        "element_count m' = element_count m + 1"
      and mod: "modifies w w' this (set (footprint m es))"
      by blast
    have "load_ok m'"
      using lo lhm_inv_size_pos[OF inv m] m'(4,5) by (rule load_ok_insert)
    with inv' m'(1) have "lhm_wf H w' this (es @ [(Suc (last_alloc w), k, v)])"
      by (rule lhm_wfI)
    with i m' mod False show ?thesis
      by (intro exI[of _ "(\<lparr>it_node = Suc (last_alloc w), it_map = this\<rparr>, True)"]
          exI[of _ w'] exI[of _ m'] exI[of _ "es @ [(Suc (last_alloc w), k, v)]"])
        (simp add: kv)
  qed
qed

lemma linked_hashmap_wf:
  "\<exists>w' m'. linked_hashmap this w = Some w' \<and> lhm_wf H w' this [] \<and> lhms w' this = Some m'
     \<and> table_size m' = 16 \<and> element_count m' = 0
     \<and> head m' = Suc (last_alloc w) \<and> tail m' = Suc (Suc (last_alloc w))
     \<and> modifies w w' this {} \<and> last_alloc w' = Suc (Suc (last_alloc w))"
proof -
  from linked_hashmap_spec[of this w H] obtain w' m' where
    s: "linked_hashmap this w = Some w'" "lhm_inv H w' this []" "lhms w' this = Some m'"
      "table_size m' = 16" "element_count m' = 0"
      "head m' = Suc (last_alloc w)" "tail m' = Suc (Suc (last_alloc w))"
      "modifies w w' this {}" "last_alloc w' = Suc (Suc (last_alloc w))"
    by blast
  have "load_ok m'" using s(4,5) by (simp add: load_ok_def)
  with s(2,3) have "lhm_wf H w' this []" by (rule lhm_wfI)
  with s show ?thesis by blast
qed

subsection \<open>Removal\<close>

lemma footprint_split:
  "footprint m (es1 @ (a, kv) # es2)
     = butlast (head m # map fst es1) @ [last (head m # map fst es1)] @ [a]
       @ hd (map fst es2 @ [tail m]) # tl (map fst es2 @ [tail m])"
  "footprint m (es1 @ es2)
     = butlast (head m # map fst es1) @ [last (head m # map fst es1)]
       @ hd (map fst es2 @ [tail m]) # tl (map fst es2 @ [tail m])"
proof -
  have a: "head m # map fst es1 = butlast (head m # map fst es1) @ [last (head m # map fst es1)]"
    by (rule append_butlast_last_id[symmetric]) simp
  have b: "map fst es2 @ [tail m] = hd (map fst es2 @ [tail m]) # tl (map fst es2 @ [tail m])"
    by simp
  have "footprint m (es1 @ (a, kv) # es2) = (head m # map fst es1) @ [a] @ (map fst es2 @ [tail m])"
    by (simp add: footprint_def)
  also have "\<dots> = (butlast (head m # map fst es1) @ [last (head m # map fst es1)]) @ [a]
       @ hd (map fst es2 @ [tail m]) # tl (map fst es2 @ [tail m])"
    using a b by metis
  finally show "footprint m (es1 @ (a, kv) # es2)
     = butlast (head m # map fst es1) @ [last (head m # map fst es1)] @ [a]
       @ hd (map fst es2 @ [tail m]) # tl (map fst es2 @ [tail m])" by simp
  have "footprint m (es1 @ es2) = (head m # map fst es1) @ (map fst es2 @ [tail m])"
    by (simp add: footprint_def)
  also have "\<dots> = (butlast (head m # map fst es1) @ [last (head m # map fst es1)])
       @ hd (map fst es2 @ [tail m]) # tl (map fst es2 @ [tail m])"
    using a b by metis
  finally show "footprint m (es1 @ es2)
     = butlast (head m # map fst es1) @ [last (head m # map fst es1)]
       @ hd (map fst es2 @ [tail m]) # tl (map fst es2 @ [tail m])" by simp
qed

lemma order_list_neighbours:
  assumes "order_list w m (es1 @ (a, kv) # es2)"
  shows "prev_of w a = Some (last (head m # map fst es1))"
    and "nxt_of w a = Some (hd (map fst es2 @ [tail m]))"
    and "nxt_of w (last (head m # map fst es1)) = Some a"
    and "prev_of w (hd (map fst es2 @ [tail m])) = Some a"
proof -
  define P p x B where "P = butlast (head m # map fst es1)"
    and "p = last (head m # map fst es1)"
    and "x = hd (map fst es2 @ [tail m])" and "B = tl (map fst es2 @ [tail m])"
  from assms have "linked (nxt_of w) (prev_of w) (footprint m (es1 @ (a, kv) # es2))"
    by (simp add: order_list_def)
  then have l: "linked (nxt_of w) (prev_of w) ((P @ [p]) @ a # x # B)"
    unfolding footprint_split(1) P_def p_def x_def B_def by simp
  from l have "linked (nxt_of w) (prev_of w) (P @ [p, a])" "linked (nxt_of w) (prev_of w) (a # x # B)"
    using linked_append[of "nxt_of w" "prev_of w" "P @ [p]" a "x # B"] by simp_all
  then show "prev_of w a = Some (last (head m # map fst es1))"
    and "nxt_of w a = Some (hd (map fst es2 @ [tail m]))"
    and "nxt_of w (last (head m # map fst es1)) = Some a"
    and "prev_of w (hd (map fst es2 @ [tail m])) = Some a"
    by (simp_all add: linked_snoc2 p_def x_def)
qed

lemma order_list_remove:
  assumes ol: "order_list w m (es1 @ (a, kv) # es2)"
    and p: "p = last (head m # map fst es1)" and x: "x = hd (map fst es2 @ [tail m])"
    and nx: "nxt_of w' = (nxt_of w)(p \<mapsto> x, a := None)"
    and pv: "prev_of w' = (prev_of w)(x \<mapsto> p, a := None)"
    and dt: "data_of w' = (data_of w)(a := None)"
    and la: "last_alloc w' = last_alloc w"
    and hd: "head m' = head m" and tl: "tail m' = tail m"
  shows "order_list w' m' (es1 @ es2)"
proof -
  define P B where "P = butlast (head m # map fst es1)" and "B = tl (map fst es2 @ [tail m])"
  have old: "footprint m (es1 @ (a, kv) # es2) = (P @ [p]) @ a # x # B"
    unfolding footprint_split(1) P_def p x B_def by simp
  have new: "footprint m (es1 @ es2) = (P @ [p]) @ x # B"
    unfolding footprint_split(2) P_def p x B_def by simp
  have new': "footprint m' (es1 @ es2) = (P @ [p]) @ x # B"
    using new by (simp add: footprint_def hd tl)
  from ol have dist: "distinct ((P @ [p]) @ a # x # B)"
    and bnd: "list_all (\<lambda>x. 0 < x \<and> x \<le> last_alloc w) ((P @ [p]) @ a # x # B)"
    and lk: "linked (nxt_of w) (prev_of w) ((P @ [p]) @ a # x # B)"
    and sent: "data_of w (head m) = Some None" "data_of w (tail m) = Some None"
    and dat: "list_all (\<lambda>e. data_of w (fst e) = Some (Some (snd e))) (es1 @ (a, kv) # es2)"
    unfolding order_list_def old by simp_all
  have lkP: "linked (nxt_of w) (prev_of w) (P @ [p])"
    using lk linked_append[of "nxt_of w" "prev_of w" P p "a # x # B"] by simp
  have lkB: "linked (nxt_of w) (prev_of w) (x # B)"
    using lk linked_append[of "nxt_of w" "prev_of w" "P @ [p]" a "x # B"]
      linked_append[of "nxt_of w" "prev_of w" "[a]" x B] by simp
  have "linked (nxt_of w') (prev_of w') (P @ [p]) = linked (nxt_of w) (prev_of w) (P @ [p])"
  proof (rule linked_cong)
    show "\<forall>y\<in>set (butlast (P @ [p])). nxt_of w' y = nxt_of w y"
      using dist by (auto simp: nx)
    have "set (tl (P @ [p])) \<subseteq> set (P @ [p])" by (cases P) auto
    then show "\<forall>y\<in>set (tl (P @ [p])). prev_of w' y = prev_of w y"
      using dist by (auto simp: pv)
  qed
  with lkP have 1: "linked (nxt_of w') (prev_of w') (P @ [p])" by simp
  have "linked (nxt_of w') (prev_of w') (x # B) = linked (nxt_of w) (prev_of w) (x # B)"
  proof (rule linked_cong)
    have "set (butlast (x # B)) \<subseteq> set (x # B)" by (meson in_set_butlastD subsetI)
    then show "\<forall>y\<in>set (butlast (x # B)). nxt_of w' y = nxt_of w y"
      using dist by (auto simp: nx)
    show "\<forall>y\<in>set (tl (x # B)). prev_of w' y = prev_of w y"
      using dist by (auto simp: pv)
  qed
  with lkB have 2: "linked (nxt_of w') (prev_of w') (x # B)" by simp
  have 3: "nxt_of w' p = Some x" "prev_of w' x = Some p"
    using dist by (auto simp: nx pv)
  have lk': "linked (nxt_of w') (prev_of w') ((P @ [p]) @ x # B)"
    using 1 2 3 linked_append[of "nxt_of w'" "prev_of w'" "P @ [p]" x B]
      linked_snoc2[of "nxt_of w'" "prev_of w'" P p x] by simp
  have dist': "distinct ((P @ [p]) @ x # B)" using dist by auto
  have bnd': "list_all (\<lambda>x. 0 < x \<and> x \<le> last_alloc w') ((P @ [p]) @ x # B)"
    using bnd la by (auto simp: list_all_iff)
  have ahd: "a \<noteq> head m" "a \<noteq> tail m" "a \<notin> fst ` set (es1 @ es2)"
    using ol by (auto simp: order_list_def footprint_def)
  have sent': "data_of w' (head m) = Some None" "data_of w' (tail m) = Some None"
    using sent ahd by (simp_all add: dt)
  have dat': "list_all (\<lambda>e. data_of w' (fst e) = Some (Some (snd e))) (es1 @ es2)"
    using dat ahd(3) by (auto simp: dt list_all_iff)
  show ?thesis
    unfolding order_list_def new' hd tl using lk' dist' bnd' sent' dat' by simp
qed

lemma remove_from_list_spec:
  assumes a: "nxt_of w a = Some x" "prev_of w a = Some p"
    and dom: "p \<in> dom (nodes w)" "x \<in> dom (nodes w)" and neq: "a \<noteq> p"
  shows "\<exists>w'. remove_from_list a w = Some w'
           \<and> nxt_of w' = (nxt_of w)(p \<mapsto> x) \<and> prev_of w' = (prev_of w)(x \<mapsto> p)
           \<and> data_of w' = data_of w \<and> lhms w' = lhms w \<and> last_alloc w' = last_alloc w
           \<and> dom (nodes w') = dom (nodes w)
           \<and> (\<forall>y. y \<noteq> p \<and> y \<noteq> x \<longrightarrow> nodes w' y = nodes w y)"
proof -
  from a obtain n where n: "nodes w a = Some n" "nxt n = x" "prev n = p"
    by (auto simp: nxt_of_def prev_of_def)
  from set_nxt_spec[OF dom(1), of x] obtain w1 where w1: "set_nxt p x w = Some w1"
    "nxt_of w1 = (nxt_of w)(p \<mapsto> x)" "prev_of w1 = prev_of w" "data_of w1 = data_of w"
    "lhms w1 = lhms w" "last_alloc w1 = last_alloc w" "dom (nodes w1) = dom (nodes w)"
    "\<forall>y. y \<noteq> p \<longrightarrow> nodes w1 y = nodes w y" by blast
  have n1: "nodes w1 a = Some n" using n w1(8) neq by simp
  from dom w1(7) have "x \<in> dom (nodes w1)" by simp
  from set_prev_spec[OF this, of p] obtain w2 where w2: "set_prev x p w1 = Some w2"
    "prev_of w2 = (prev_of w1)(x \<mapsto> p)" "nxt_of w2 = nxt_of w1" "data_of w2 = data_of w1"
    "lhms w2 = lhms w1" "last_alloc w2 = last_alloc w1" "dom (nodes w2) = dom (nodes w1)"
    "\<forall>y. y \<noteq> x \<longrightarrow> nodes w2 y = nodes w1 y" by blast
  have "remove_from_list a w = Some w2"
    using n n1 w1(1) w2(1) by (simp add: remove_from_list_def)
  moreover have "\<forall>y. y \<noteq> p \<and> y \<noteq> x \<longrightarrow> nodes w2 y = nodes w y"
    using w1(8) w2(8) by simp
  ultimately show ?thesis by (simp add: w2 w1)
qed

lemma erase_spec:
  assumes inv: "lhm_inv H w this (es1 @ (a, k, v) # es2)" and m: "lhms w this = Some m"
  shows "\<exists>w' m'. erase H this \<lparr>it_node = a, it_map = this\<rparr> w = Some (Inr (), w')
           \<and> lhm_inv H w' this (es1 @ es2)
           \<and> lhms w' this = Some m' \<and> head m' = head m \<and> tail m' = tail m
           \<and> table_size m' = table_size m \<and> element_count m' = element_count m - 1
           \<and> 0 < element_count m
           \<and> nodes w' a = None
           \<and> modifies w w' this (set (footprint m (es1 @ (a, k, v) # es2)))
           \<and> last_alloc w' = last_alloc w"
proof -
  let ?es = "es1 @ (a, k, v) # es2"
  from lhm_invD'[OF inv m] obtain t where t: "table m = Some t"
    and ol: "order_list w m ?es"
    and keys: "distinct (map (\<lambda>e. fst (snd e)) ?es)"
    and bk: "buckets_ok H t (table_size m) ?es"
    and cnt: "element_count m = length ?es" by blast
  have mem: "(a, k, v) \<in> set ?es" by simp
  from order_list_entry_pos[OF ol mem] have apos: "a \<noteq> nullptr" "a \<noteq> head m" "a \<noteq> tail m"
    by simp_all
  define p x where "p = last (head m # map fst es1)" and "x = hd (map fst es2 @ [tail m])"
  from order_list_neighbours[OF ol] have nb: "prev_of w a = Some p" "nxt_of w a = Some x"
    by (simp_all add: p_def x_def)
  from entry_node[OF order_list_data[OF ol] mem] obtain n where
    n: "nodes w a = Some n" "data n = Some (k, v)" by blast
  \<comment> \<open>the bucket reference\<close>
  from bk have sz: "table_size m \<noteq> 0" "length t = table_size m" by (simp_all add: buckets_ok_iff)
  let ?i = "H k mod table_size m"
  have rl: "remove_from_table_loop (nodes w) k (t ! ?i) = Some (remove1 a (t ! ?i))"
    using order_list_data[OF ol] keys buckets_ok_chain(2)[OF bk] mem
      buckets_ok_chain(4)[OF bk mem]
    by (rule remove_from_table_loop_present)
  let ?m1 = "m\<lparr>table := Some (t[?i := remove1 a (t ! ?i)])\<rparr>"
  let ?w1 = "set_lhm this ?m1 w"
  have r1: "remove_from_table H this k w = Some ?w1"
    using m t sz rl by (simp add: remove_from_table_def get_bucket_index_def)
  have bk1: "buckets_ok H (t[?i := remove1 a (t ! ?i)]) (table_size m) (es1 @ es2)"
    using bk order_list_distinct_addrs[OF ol] by (rule buckets_ok_remove)
  \<comment> \<open>the order list\<close>
  define P B where "P = butlast (head m # map fst es1)" and "B = tl (map fst es2 @ [tail m])"
  have fp: "footprint m ?es = P @ [p] @ [a] @ x # B"
    unfolding P_def B_def p_def x_def by (rule footprint_split(1))
  have pfp: "p \<in> set (footprint m ?es)" "x \<in> set (footprint m ?es)"
    unfolding fp by simp_all
  have pd: "p \<in> dom (nodes ?w1)" "x \<in> dom (nodes ?w1)"
    using order_list_dom[OF ol pfp(1)] order_list_dom[OF ol pfp(2)] by simp_all
  have "distinct (footprint m ?es)" using ol by (simp add: order_list_def)
  then have ap: "a \<noteq> p"
    unfolding fp by auto
  from remove_from_list_spec[of ?w1 a x p] nb pd ap obtain w2 where
    r2: "remove_from_list a ?w1 = Some w2"
    and w2: "nxt_of w2 = (nxt_of w)(p \<mapsto> x)" "prev_of w2 = (prev_of w)(x \<mapsto> p)"
      "data_of w2 = data_of w" "lhms w2 = lhms ?w1" "last_alloc w2 = last_alloc w"
      "dom (nodes w2) = dom (nodes w)"
      "\<forall>y. y \<noteq> p \<and> y \<noteq> x \<longrightarrow> nodes w2 y = nodes w y"
    by auto
  have "a \<in> dom (nodes w2)" using n w2(6) by auto
  from delete_Node_spec[OF this] obtain w3 where
    r3: "delete_Node a w2 = Some w3"
    and w3: "nxt_of w3 = (nxt_of w2)(a := None)" "prev_of w3 = (prev_of w2)(a := None)"
      "data_of w3 = (data_of w2)(a := None)" "lhms w3 = lhms w2" "last_alloc w3 = last_alloc w2"
      "nodes w3 a = None" "\<forall>y. y \<noteq> a \<longrightarrow> nodes w3 y = nodes w2 y"
    by blast
  let ?m4 = "?m1\<lparr>element_count := element_count m - 1\<rparr>"
  let ?w4 = "set_lhm this ?m4 w3"
  have cpos: "element_count m \<noteq> 0" using cnt by simp
  have res: "erase H this \<lparr>it_node = a, it_map = this\<rparr> w = Some (Inr (), ?w4)"
    using m apos n r1 r2 r3 cpos by (simp add: erase_def w3 w2)
  have ol4: "order_list ?w4 ?m4 (es1 @ es2)"
    by (rule order_list_remove[OF ol p_def x_def]) (simp_all add: w3 w2)
  have keys4: "distinct (map (\<lambda>e. fst (snd e)) (es1 @ es2))" using keys by auto
  have inv4: "lhm_inv H ?w4 this (es1 @ es2)"
    using ol4 keys4 bk1 cnt
    by (intro lhm_invI[where m = ?m4 and t = "t[?i := remove1 a (t ! ?i)]"]) simp_all
  have mod: "modifies w ?w4 this (set (footprint m ?es))"
    unfolding modifies_def
  proof (intro conjI allI impI)
    fix b assume "b \<noteq> this"
    then show "lhms ?w4 b = lhms w b" by (simp add: w3 w2)
  next
    fix y assume y: "y \<notin> set (footprint m ?es) \<and> y \<le> last_alloc w"
    with pfp have "y \<noteq> p \<and> y \<noteq> x \<and> y \<noteq> a" by (auto simp: footprint_def)
    with w3(7) w2(7) show "nodes ?w4 y = nodes w y" by simp
  next
    show "last_alloc w \<le> last_alloc ?w4" by (simp add: w3 w2)
  qed
  show ?thesis
    using res inv4 mod cpos w3(6)
    by (intro exI[of _ ?w4] exI[of _ ?m4]) (simp add: w3 w2)
qed

lemma erase_invalid:
  assumes "lhms w this = Some m"
  shows "(it_map pos \<noteq> this \<or> it_node pos = tail m \<or> it_node pos = head m \<or> it_node pos = nullptr
            \<longrightarrow> erase H this pos w = Some (Inl invalid_iterator, w))
       \<and> ((\<exists>e w'. erase H this pos w = Some (Inl e, w'))
            \<longrightarrow> it_map pos \<noteq> this \<or> it_node pos = tail m \<or> it_node pos = head m
                \<or> it_node pos = nullptr)"
  using assms by (auto simp: erase_def split: Option.bind_splits)

lemma buckets_ok_concat:
  assumes "buckets_ok H t sz es"
  shows "set (concat t) \<subseteq> fst ` set es"
proof
  fix x assume "x \<in> set (concat t)"
  then obtain c where "c \<in> set t" "x \<in> set c" by auto
  then obtain i where i: "i < length t" "x \<in> set (t ! i)" by (auto simp: in_set_conv_nth)
  with assms show "x \<in> fst ` set es" by (force simp: buckets_ok_iff)
qed

lemma load_ok_erase:
  "load_ok m \<Longrightarrow> table_size m' = table_size m \<Longrightarrow> element_count m' \<le> element_count m \<Longrightarrow> load_ok m'"
  by (simp add: load_ok_def)

text \<open>
  C4. With the container object at \<open>this\<close> allocated, \<open>erase\<close> raises exactly when the
  cursor belongs to another container, is at the tail sentinel (\<open>end()\<close>), is at the
  head sentinel or is null (as a default-constructed cursor is); it then raises
  \<open>invalid_iterator\<close> and leaves the world as it was. For a cursor at the live node \<open>a\<close>
  of a container with entries \<open>es1 @ (a, k, v) # es2\<close>, \<open>erase\<close> returns, the container
  holds \<open>es1 @ es2\<close> with the order list and the chains consistent, no chain holds \<open>a\<close>,
  node \<open>a\<close> is freed and the count is one less.
\<close>

theorem erase_checks_position:
  "(lhms w this = Some m \<longrightarrow>
      ((\<exists>e w'. erase H this pos w = Some (Inl e, w'))
          \<longleftrightarrow> it_map pos \<noteq> this \<or> it_node pos = tail m \<or> it_node pos = head m
              \<or> it_node pos = nullptr)
      \<and> (it_map pos \<noteq> this \<or> it_node pos = tail m \<or> it_node pos = head m
              \<or> it_node pos = nullptr
          \<longrightarrow> erase H this pos w = Some (Inl invalid_iterator, w))
      \<and> (end_lhm this w = Some pos \<longrightarrow> erase H this pos w = Some (Inl invalid_iterator, w))
      \<and> erase H this iterator_default w = Some (Inl invalid_iterator, w))
   \<and> (lhm_inv H w this (es1 @ (a, k, v) # es2) \<and> lhms w this = Some m \<longrightarrow>
      (\<exists>w' m' t'. erase H this \<lparr>it_node = a, it_map = this\<rparr> w = Some (Inr (), w')
          \<and> lhm_inv H w' this (es1 @ es2)
          \<and> iterate this w' = Some (map snd (es1 @ es2))
          \<and> lhms w' this = Some m' \<and> element_count m' = element_count m - 1
          \<and> 0 < element_count m \<and> table_size m' = table_size m
          \<and> table m' = Some t' \<and> a \<notin> set (concat t')
          \<and> nodes w' a = None
          \<and> find_lhm H this k w' = end_lhm this w'))"
proof (intro conjI impI)
  assume m: "lhms w this = Some m"
  from erase_invalid[OF m, of pos H]
  show "(\<exists>e w'. erase H this pos w = Some (Inl e, w'))
          \<longleftrightarrow> it_map pos \<noteq> this \<or> it_node pos = tail m \<or> it_node pos = head m
              \<or> it_node pos = nullptr" by blast
  show "erase H this iterator_default w = Some (Inl invalid_iterator, w)"
    using erase_invalid[OF m, of iterator_default H] by (simp add: iterator_default_def)
  {
    assume "end_lhm this w = Some pos"
    with m have "it_node pos = tail m" by (auto simp: end_lhm_def)
    with erase_invalid[OF m, of pos H]
    show "erase H this pos w = Some (Inl invalid_iterator, w)" by simp
  }
  {
    assume "it_map pos \<noteq> this \<or> it_node pos = tail m \<or> it_node pos = head m
              \<or> it_node pos = nullptr"
    with erase_invalid[OF m, of pos H]
    show "erase H this pos w = Some (Inl invalid_iterator, w)" by simp
  }
next
  assume a: "lhm_inv H w this (es1 @ (a, k, v) # es2) \<and> lhms w this = Some m"
  then have inv: "lhm_inv H w this (es1 @ (a, k, v) # es2)" and m: "lhms w this = Some m"
    by simp_all
  from erase_spec[OF inv m] obtain w' m' where
    e: "erase H this \<lparr>it_node = a, it_map = this\<rparr> w = Some (Inr (), w')"
    and inv': "lhm_inv H w' this (es1 @ es2)"
    and m': "lhms w' this = Some m'" "table_size m' = table_size m"
      "element_count m' = element_count m - 1" "0 < element_count m"
    and gone: "nodes w' a = None"
    by blast
  from lhm_invD'[OF inv' m'(1)] obtain t' where t': "table m' = Some t'"
    "buckets_ok H t' (table_size m') (es1 @ es2)" by blast
  from lhm_invD'[OF inv m] have olw: "order_list w m (es1 @ (a, k, v) # es2)"
    and "distinct (map (\<lambda>e. fst (snd e)) (es1 @ (a, k, v) # es2))" by blast+
  with order_list_distinct_addrs[OF olw] have "distinct (map fst (es1 @ (a, k, v) # es2))"
    "distinct (map (\<lambda>e. fst (snd e)) (es1 @ (a, k, v) # es2))"
    by blast+
  then have "a \<notin> fst ` set (es1 @ es2)" and kabs: "k \<notin> (\<lambda>e. fst (snd e)) ` set (es1 @ es2)"
    by auto
  with buckets_ok_concat[OF t'(2)] have notin: "a \<notin> set (concat t')" by blast
  have f: "find_lhm H this k w' = end_lhm this w'"
    using find_node_absent[OF inv' kabs] by (simp add: find_lhm_def)
  show "\<exists>w' m' t'. erase H this \<lparr>it_node = a, it_map = this\<rparr> w = Some (Inr (), w')
          \<and> lhm_inv H w' this (es1 @ es2)
          \<and> iterate this w' = Some (map snd (es1 @ es2))
          \<and> lhms w' this = Some m' \<and> element_count m' = element_count m - 1
          \<and> 0 < element_count m \<and> table_size m' = table_size m
          \<and> table m' = Some t' \<and> a \<notin> set (concat t')
          \<and> nodes w' a = None
          \<and> find_lhm H this k w' = end_lhm this w'"
    using e inv' iterate_spec[OF inv'] m' t'(1) notin gone f by blast
qed

theorem erase_checks_position_witness:
  "case Option.bind (linked_hashmap 1 w_empty) (insert_all id 1 [(1, 10), (2, 20), (3, 30)]) of
     None \<Rightarrow> False
   | Some w \<Rightarrow>
       (case lhms w 1 of
          None \<Rightarrow> False
        | Some m \<Rightarrow>
            lhm_inv id w 1 ([(3, 1, 10)] @ (4, 2, 20) # [(5, 3, 30)])
            \<and> head m = 1 \<and> tail m = 2 \<and> element_count m = 3
            \<and> erase id 1 \<lparr>it_node = 2, it_map = 1\<rparr> w = Some (Inl invalid_iterator, w)
            \<and> erase id 1 \<lparr>it_node = 1, it_map = 1\<rparr> w = Some (Inl invalid_iterator, w)
            \<and> erase id 1 \<lparr>it_node = 4, it_map = 7\<rparr> w = Some (Inl invalid_iterator, w)
            \<and> erase id 1 iterator_default w = Some (Inl invalid_iterator, w)
            \<and> (\<exists>w' m'. erase id 1 \<lparr>it_node = 4, it_map = 1\<rparr> w = Some (Inr (), w')
                  \<and> iterate 1 w' = Some [(1, 10), (3, 30)]
                  \<and> lhms w' 1 = Some m' \<and> element_count m' = 2 \<and> nodes w' 4 = None
                  \<and> find_lhm id 1 2 w' = end_lhm 1 w'))"
proof -
  let ?es = "[(3, 1, 10)] @ (4, 2, 20) # [(5, 3, 30)] :: (nat, nat) entry list"
  have "case Option.bind (linked_hashmap 1 w_empty) (insert_all id 1 [(1, 10), (2, 20), (3, 30)]) of
     None \<Rightarrow> False
   | Some w \<Rightarrow> (case lhms w 1 of None \<Rightarrow> False | Some m \<Rightarrow>
        lhm_inv id w 1 ?es \<and> head m = 1 \<and> tail m = 2 \<and> element_count m = 3)"
    by code_simp
  then obtain w m where w: "Option.bind (linked_hashmap 1 w_empty)
      (insert_all id 1 [(1, 10), (2, 20), (3, 30)]) = Some w" "lhms w 1 = Some m"
    "lhm_inv id w 1 ?es" "head m = 1" "tail m = 2" "element_count m = 3"
    by (auto split: option.splits)
  note th = erase_checks_position[where H = id and w = w and this = 1 and m = m
      and ?es1.0 = "[(3, 1, 10)]" and a = 4 and k = 2 and v = 20 and ?es2.0 = "[(5, 3, 30)]"]
  from th[where pos = "\<lparr>it_node = 2, it_map = 1\<rparr>"] w
  have 1: "erase id 1 \<lparr>it_node = 2, it_map = 1\<rparr> w = Some (Inl invalid_iterator, w)" by simp
  from th[where pos = "\<lparr>it_node = 1, it_map = 1\<rparr>"] w
  have 2: "erase id 1 \<lparr>it_node = 1, it_map = 1\<rparr> w = Some (Inl invalid_iterator, w)" by simp
  from th[where pos = "\<lparr>it_node = 4, it_map = 7\<rparr>"] w
  have 3: "erase id 1 \<lparr>it_node = 4, it_map = 7\<rparr> w = Some (Inl invalid_iterator, w)" by simp
  from th[where pos = iterator_default] w
  have 4: "erase id 1 iterator_default w = Some (Inl invalid_iterator, w)" by simp
  from th[where pos = iterator_default] w
  have 5: "\<exists>w' m'. erase id 1 \<lparr>it_node = 4, it_map = 1\<rparr> w = Some (Inr (), w')
                  \<and> iterate 1 w' = Some [(1, 10), (3, 30)]
                  \<and> lhms w' 1 = Some m' \<and> element_count m' = 2 \<and> nodes w' 4 = None
                  \<and> find_lhm id 1 2 w' = end_lhm 1 w'" by simp blast
  from 1 2 3 4 5 w show ?thesis by simp
qed

subsection \<open>Cursors\<close>

lemma cursor_inc:
  assumes "p \<noteq> nullptr \<longrightarrow> lhms w q = Some m \<and> nodes w p = Some n"
  shows "iterator_pre_inc w \<lparr>it_node = p, it_map = q\<rparr>
           = Some (if p = nullptr \<or> p = tail m then Inl invalid_iterator
                   else Inr \<lparr>it_node = nxt n, it_map = q\<rparr>)"
    and "iterator_post_inc w \<lparr>it_node = p, it_map = q\<rparr>
           = Some (if p = nullptr \<or> p = tail m then Inl invalid_iterator
                   else Inr (\<lparr>it_node = p, it_map = q\<rparr>, \<lparr>it_node = nxt n, it_map = q\<rparr>))"
    and "const_iterator_pre_inc w \<lparr>cit_node = p, cit_map = q\<rparr>
           = Some (if p = nullptr \<or> p = tail m then Inl invalid_iterator
                   else Inr \<lparr>cit_node = nxt n, cit_map = q\<rparr>)"
    and "const_iterator_post_inc w \<lparr>cit_node = p, cit_map = q\<rparr>
           = Some (if p = nullptr \<or> p = tail m then Inl invalid_iterator
                   else Inr (\<lparr>cit_node = p, cit_map = q\<rparr>, \<lparr>cit_node = nxt n, cit_map = q\<rparr>))"
  using assms
  by (simp_all add: iterator_pre_inc_def iterator_post_inc_def const_iterator_pre_inc_def
      const_iterator_post_inc_def)

lemma cursor_dec:
  assumes "p \<noteq> nullptr \<longrightarrow> lhms w q = Some m \<and> nodes w p = Some n"
  shows "iterator_pre_dec w \<lparr>it_node = p, it_map = q\<rparr>
           = Some (if p = nullptr \<or> prev n = head m then Inl invalid_iterator
                   else Inr \<lparr>it_node = prev n, it_map = q\<rparr>)"
    and "iterator_post_dec w \<lparr>it_node = p, it_map = q\<rparr>
           = Some (if p = nullptr \<or> prev n = head m then Inl invalid_iterator
                   else Inr (\<lparr>it_node = p, it_map = q\<rparr>, \<lparr>it_node = prev n, it_map = q\<rparr>))"
    and "const_iterator_pre_dec w \<lparr>cit_node = p, cit_map = q\<rparr>
           = Some (if p = nullptr \<or> prev n = head m then Inl invalid_iterator
                   else Inr \<lparr>cit_node = prev n, cit_map = q\<rparr>)"
    and "const_iterator_post_dec w \<lparr>cit_node = p, cit_map = q\<rparr>
           = Some (if p = nullptr \<or> prev n = head m then Inl invalid_iterator
                   else Inr (\<lparr>cit_node = p, cit_map = q\<rparr>, \<lparr>cit_node = prev n, cit_map = q\<rparr>))"
  using assms
  by (simp_all add: iterator_pre_dec_def iterator_post_dec_def const_iterator_pre_dec_def
      const_iterator_post_dec_def)

lemma end_dec_empty:
  assumes "lhm_inv H w this []"
  shows "\<exists>e ce. end_lhm this w = Some e \<and> cend this w = Some ce
           \<and> begin_lhm this w = Some e \<and> cbegin this w = Some ce
           \<and> iterator_pre_dec w e = Some (Inl invalid_iterator)
           \<and> iterator_post_dec w e = Some (Inl invalid_iterator)
           \<and> const_iterator_pre_dec w ce = Some (Inl invalid_iterator)
           \<and> const_iterator_post_dec w ce = Some (Inl invalid_iterator)"
proof -
  from assms obtain m where m: "lhms w this = Some m" "order_list w m []" by (rule lhm_invD)
  from order_list_last[OF m(2)] obtain tn where tn: "nodes w (tail m) = Some tn" "prev tn = head m"
    by (auto simp: prev_of_def)
  from order_list_path[OF m(2)] obtain hn where hn: "nodes w (head m) = Some hn" "nxt hn = tail m"
    by (auto simp: nxt_of_def)
  have "tail m \<noteq> nullptr" using order_list_bound[OF m(2), of "tail m"] by (simp add: footprint_def)
  with m tn hn show ?thesis
    by (simp add: end_lhm_def cend_def begin_lhm_def cbegin_def iterator_pre_dec_def
        iterator_post_dec_def const_iterator_pre_dec_def const_iterator_post_dec_def)
qed

text \<open>
  C5. For a cursor of either class with node pointer \<open>p\<close> and container pointer \<open>q\<close>,
  where \<open>p\<close> is null or else \<open>q\<close> points to the container object \<open>m\<close> and \<open>p\<close> to the
  allocated node \<open>n\<close>: each of \<open>++\<close> (prefix and postfix) raises \<open>invalid_iterator\<close>
  exactly when \<open>p\<close> is null or the tail sentinel of \<open>m\<close>, and otherwise moves the cursor
  to \<open>n.next\<close>; each of \<open>--\<close> raises exactly when \<open>p\<close> is null or \<open>n.prev\<close> is the head
  sentinel of \<open>m\<close>, and otherwise moves the cursor to \<open>n.prev\<close>. A postfix operator
  returns the cursor as it was. In a new container \<open>end()\<close> equals \<open>begin()\<close>, and
  decrementing it raises \<open>invalid_iterator\<close>.
\<close>

theorem cursor_moves:
  "((p \<noteq> nullptr \<longrightarrow> lhms w q = Some m \<and> nodes w p = Some n) \<longrightarrow>
      iterator_pre_inc w \<lparr>it_node = p, it_map = q\<rparr>
        = Some (if p = nullptr \<or> p = tail m then Inl invalid_iterator
                else Inr \<lparr>it_node = nxt n, it_map = q\<rparr>)
      \<and> iterator_post_inc w \<lparr>it_node = p, it_map = q\<rparr>
        = Some (if p = nullptr \<or> p = tail m then Inl invalid_iterator
                else Inr (\<lparr>it_node = p, it_map = q\<rparr>, \<lparr>it_node = nxt n, it_map = q\<rparr>))
      \<and> const_iterator_pre_inc w \<lparr>cit_node = p, cit_map = q\<rparr>
        = Some (if p = nullptr \<or> p = tail m then Inl invalid_iterator
                else Inr \<lparr>cit_node = nxt n, cit_map = q\<rparr>)
      \<and> const_iterator_post_inc w \<lparr>cit_node = p, cit_map = q\<rparr>
        = Some (if p = nullptr \<or> p = tail m then Inl invalid_iterator
                else Inr (\<lparr>cit_node = p, cit_map = q\<rparr>, \<lparr>cit_node = nxt n, cit_map = q\<rparr>))
      \<and> iterator_pre_dec w \<lparr>it_node = p, it_map = q\<rparr>
        = Some (if p = nullptr \<or> prev n = head m then Inl invalid_iterator
                else Inr \<lparr>it_node = prev n, it_map = q\<rparr>)
      \<and> iterator_post_dec w \<lparr>it_node = p, it_map = q\<rparr>
        = Some (if p = nullptr \<or> prev n = head m then Inl invalid_iterator
                else Inr (\<lparr>it_node = p, it_map = q\<rparr>, \<lparr>it_node = prev n, it_map = q\<rparr>))
      \<and> const_iterator_pre_dec w \<lparr>cit_node = p, cit_map = q\<rparr>
        = Some (if p = nullptr \<or> prev n = head m then Inl invalid_iterator
                else Inr \<lparr>cit_node = prev n, cit_map = q\<rparr>)
      \<and> const_iterator_post_dec w \<lparr>cit_node = p, cit_map = q\<rparr>
        = Some (if p = nullptr \<or> prev n = head m then Inl invalid_iterator
                else Inr (\<lparr>cit_node = p, cit_map = q\<rparr>, \<lparr>cit_node = prev n, cit_map = q\<rparr>)))
   \<and> (\<exists>w' e ce. linked_hashmap this w0 = Some w'
          \<and> end_lhm this w' = Some e \<and> cend this w' = Some ce
          \<and> begin_lhm this w' = Some e \<and> cbegin this w' = Some ce
          \<and> iterator_pre_dec w' e = Some (Inl invalid_iterator)
          \<and> iterator_post_dec w' e = Some (Inl invalid_iterator)
          \<and> const_iterator_pre_dec w' ce = Some (Inl invalid_iterator)
          \<and> const_iterator_post_dec w' ce = Some (Inl invalid_iterator))"
proof (intro conjI impI)
  from linked_hashmap_spec[of this w0 "\<lambda>_. 0"] obtain w' where
    c: "linked_hashmap this w0 = Some w'" "lhm_inv (\<lambda>_. 0) w' this []" by blast
  from end_dec_empty[OF c(2)] c(1)
  show "\<exists>w' e ce. linked_hashmap this w0 = Some w'
          \<and> end_lhm this w' = Some e \<and> cend this w' = Some ce
          \<and> begin_lhm this w' = Some e \<and> cbegin this w' = Some ce
          \<and> iterator_pre_dec w' e = Some (Inl invalid_iterator)
          \<and> iterator_post_dec w' e = Some (Inl invalid_iterator)
          \<and> const_iterator_pre_dec w' ce = Some (Inl invalid_iterator)
          \<and> const_iterator_post_dec w' ce = Some (Inl invalid_iterator)" by blast
qed (rule cursor_inc cursor_dec, assumption)+

theorem cursor_moves_witness:
  "case Option.bind (linked_hashmap 1 w_empty) (insert_all id 1 [(1, 10), (2, 20)]) of
     None \<Rightarrow> False
   | Some w \<Rightarrow>
       lhms w 1 = Some \<lparr>table = Some ([[], [3], [4]] @ replicate 13 []), table_size = 16,
                         element_count = 2, head = 1, tail = 2\<rparr>
       \<and> nodes w 3 = Some \<lparr>data = Some (1, 10), prev = 1, nxt = 4\<rparr>
       \<and> nodes w 4 = Some \<lparr>data = Some (2, 20), prev = 3, nxt = 2\<rparr>
       \<and> nodes w 2 = Some \<lparr>data = None, prev = 4, nxt = nullptr\<rparr>
       \<and> iterator_pre_inc w \<lparr>it_node = 3, it_map = 1\<rparr> = Some (Inr \<lparr>it_node = 4, it_map = 1\<rparr>)
       \<and> iterator_pre_inc w \<lparr>it_node = 4, it_map = 1\<rparr> = Some (Inr \<lparr>it_node = 2, it_map = 1\<rparr>)
       \<and> iterator_pre_inc w \<lparr>it_node = 2, it_map = 1\<rparr> = Some (Inl invalid_iterator)
       \<and> iterator_pre_inc w iterator_default = Some (Inl invalid_iterator)
       \<and> const_iterator_post_dec w \<lparr>cit_node = 2, cit_map = 1\<rparr>
            = Some (Inr (\<lparr>cit_node = 2, cit_map = 1\<rparr>, \<lparr>cit_node = 4, cit_map = 1\<rparr>))
       \<and> iterator_pre_dec w \<lparr>it_node = 4, it_map = 1\<rparr> = Some (Inr \<lparr>it_node = 3, it_map = 1\<rparr>)
       \<and> iterator_pre_dec w \<lparr>it_node = 3, it_map = 1\<rparr> = Some (Inl invalid_iterator)
       \<and> iterator_pre_dec w iterator_default = Some (Inl invalid_iterator)"
proof -
  have "case Option.bind (linked_hashmap 1 w_empty) (insert_all id 1 [(1, 10), (2, 20)]) of
     None \<Rightarrow> False
   | Some w \<Rightarrow>
       lhms w 1 = Some \<lparr>table = Some ([[], [3], [4]] @ replicate 13 []), table_size = 16,
                         element_count = 2, head = 1, tail = 2\<rparr>
       \<and> nodes w 3 = Some \<lparr>data = Some (1, 10), prev = 1, nxt = 4\<rparr>
       \<and> nodes w 4 = Some \<lparr>data = Some (2, 20), prev = 3, nxt = 2\<rparr>
       \<and> nodes w 2 = Some \<lparr>data = None, prev = 4, nxt = nullptr\<rparr>"
    by code_simp
  then obtain w where w: "Option.bind (linked_hashmap 1 w_empty)
      (insert_all id 1 [(1, 10), (2, 20)]) = Some w"
    "lhms w 1 = Some \<lparr>table = Some ([[], [3], [4]] @ replicate 13 []), table_size = 16,
                         element_count = 2, head = 1, tail = 2\<rparr>"
    "nodes w 3 = Some \<lparr>data = Some (1, 10), prev = 1, nxt = 4\<rparr>"
    "nodes w 4 = Some \<lparr>data = Some (2, 20), prev = 3, nxt = 2\<rparr>"
    "nodes w 2 = Some \<lparr>data = None, prev = 4, nxt = nullptr\<rparr>"
    by (auto split: option.splits)
  let ?m = "\<lparr>table = Some ([[], [3], [4]] @ replicate 13 []), table_size = 16,
                         element_count = 2, head = 1, tail = 2\<rparr>"
  note th = cursor_moves[where w = w and q = 1 and m = ?m and this = 1 and ?w0.0 = w_empty]
  from th[where p = 3 and n = "\<lparr>data = Some (1, 10), prev = 1, nxt = 4\<rparr>"] w
  have 1: "iterator_pre_inc w \<lparr>it_node = 3, it_map = 1\<rparr> = Some (Inr \<lparr>it_node = 4, it_map = 1\<rparr>)"
    "iterator_pre_dec w \<lparr>it_node = 3, it_map = 1\<rparr> = Some (Inl invalid_iterator)" by simp_all
  from th[where p = 4 and n = "\<lparr>data = Some (2, 20), prev = 3, nxt = 2\<rparr>"] w
  have 2: "iterator_pre_inc w \<lparr>it_node = 4, it_map = 1\<rparr> = Some (Inr \<lparr>it_node = 2, it_map = 1\<rparr>)"
    "iterator_pre_dec w \<lparr>it_node = 4, it_map = 1\<rparr> = Some (Inr \<lparr>it_node = 3, it_map = 1\<rparr>)"
    by simp_all
  from th[where p = 2 and n = "\<lparr>data = None, prev = 4, nxt = nullptr\<rparr>"] w
  have 3: "iterator_pre_inc w \<lparr>it_node = 2, it_map = 1\<rparr> = Some (Inl invalid_iterator)"
    "const_iterator_post_dec w \<lparr>cit_node = 2, cit_map = 1\<rparr>
            = Some (Inr (\<lparr>cit_node = 2, cit_map = 1\<rparr>, \<lparr>cit_node = 4, cit_map = 1\<rparr>))"
    by simp_all
  from cursor_moves[where w = w and q = 0 and m = ?m and this = 1 and ?w0.0 = w_empty and p = 0]
  have 4: "iterator_pre_inc w iterator_default = Some (Inl invalid_iterator)"
    "iterator_pre_dec w iterator_default = Some (Inl invalid_iterator)"
    by (simp_all add: iterator_default_def)
  from 1 2 3 4 w show ?thesis by simp
qed

text \<open>
  C6. On a mutable container, \<^verbatim>\<open>operator[]\<close> with an absent key returns the node that
  \<open>insert\<close> creates for the key and the default value, in the world that this insertion
  leaves; with a present key it returns the node that holds the key and leaves the world
  as it was. On a read-only container, \<^verbatim>\<open>operator[]\<close> with an absent key raises
  \<open>index_out_of_bound\<close> and leaves the world as it was; with a present key it returns
  what \<open>at\<close> returns.
\<close>

theorem subscript_views:
  assumes "lhm_inv H w this es"
  shows "(k \<notin> keys_of es \<longrightarrow>
           (\<exists>a w'. subscript H dflt this k w = Some (a, w')
              \<and> insert_lhm H this (k, dflt) w = Some ((\<lparr>it_node = a, it_map = this\<rparr>, True), w')
              \<and> value_at w' a = Some dflt
              \<and> lhm_inv H w' this (es @ [(a, k, dflt)])
              \<and> iterate this w' = Some (map snd es @ [(k, dflt)]))
           \<and> subscript_const H this k w = Some (Inl index_out_of_bound, w))
       \<and> ((a, k, v) \<in> set es \<longrightarrow>
           subscript H dflt this k w = Some (a, w) \<and> value_at w a = Some v
           \<and> subscript_const H this k w = Some (Inr a, w)
           \<and> at_const H this k w = Some (Inr a))"
proof (intro conjI impI)
  assume abs: "k \<notin> keys_of es"
  from assms obtain m where m: "lhms w this = Some m" by (rule lhm_invD)
  let ?a = "Suc (last_alloc w)"
  from insert_absent[OF assms m abs[unfolded keys_of_def], of dflt] obtain w' where
    i: "insert_lhm H this (k, dflt) w = Some ((\<lparr>it_node = ?a, it_map = this\<rparr>, True), w')"
    and inv': "lhm_inv H w' this (es @ [(?a, k, dflt)])" by blast
  have v: "value_at w' ?a = Some dflt"
    using entry_deref(3)[OF inv', of ?a "(k, dflt)"] by simp
  have f: "find_node H this k w = Some nullptr"
    using assms abs[unfolded keys_of_def] by (rule find_node_absent)
  have "subscript H dflt this k w = Some (?a, w')"
    using f i v by (simp add: subscript_def)
  with i v inv' iterate_spec[OF inv']
  show "\<exists>a w'. subscript H dflt this k w = Some (a, w')
              \<and> insert_lhm H this (k, dflt) w = Some ((\<lparr>it_node = a, it_map = this\<rparr>, True), w')
              \<and> value_at w' a = Some dflt
              \<and> lhm_inv H w' this (es @ [(a, k, dflt)])
              \<and> iterate this w' = Some (map snd es @ [(k, dflt)])"
    by auto
  from f show "subscript_const H this k w = Some (Inl index_out_of_bound, w)"
    by (simp add: subscript_const_def)
next
  assume mem: "(a, k, v) \<in> set es"
  from find_node_present[OF assms mem] entry_deref(3)[OF assms mem]
  show "subscript H dflt this k w = Some (a, w)" "value_at w a = Some v"
    "subscript_const H this k w = Some (Inr a, w)" "at_const H this k w = Some (Inr a)"
    by (simp_all add: subscript_def subscript_const_def at_const_def)
qed

theorem subscript_views_witness:
  "case Option.bind (linked_hashmap 1 w_empty) (insert_all id 1 [(1, 10), (2, 20), (3, 30)]) of
     None \<Rightarrow> False
   | Some w \<Rightarrow>
       lhm_inv id w 1 [(3, 1, 10), (4, 2, 20), (5, 3, 30)]
       \<and> (\<exists>a w'. subscript id 0 1 7 w = Some (a, w') \<and> value_at w' a = Some 0
              \<and> iterate 1 w' = Some [(1, 10), (2, 20), (3, 30), (7, 0)])
       \<and> subscript_const id 1 7 w = Some (Inl index_out_of_bound, w)
       \<and> subscript id 0 1 2 w = Some (4, w) \<and> value_at w 4 = Some 20
       \<and> subscript_const id 1 2 w = Some (Inr 4, w)"
proof -
  let ?es = "[(3, 1, 10), (4, 2, 20), (5, 3, 30)] :: (nat, nat) entry list"
  have "case Option.bind (linked_hashmap 1 w_empty) (insert_all id 1 [(1, 10), (2, 20), (3, 30)]) of
     None \<Rightarrow> False | Some w \<Rightarrow> lhm_inv id w 1 ?es"
    by code_simp
  then obtain w where w: "Option.bind (linked_hashmap 1 w_empty)
      (insert_all id 1 [(1, 10), (2, 20), (3, 30)]) = Some w" "lhm_inv id w 1 ?es"
    by (auto split: option.splits)
  have p: "(4, 2, 20) \<in> set ?es" and a: "7 \<notin> keys_of ?es" by (simp_all add: keys_of_def)
  from subscript_views[OF w(2), where k = 7 and dflt = 0 and a = 0 and v = 0] a
  have 1: "\<exists>a w'. subscript id 0 1 7 w = Some (a, w') \<and> value_at w' a = Some 0
              \<and> iterate 1 w' = Some [(1, 10), (2, 20), (3, 30), (7, 0)]"
    "subscript_const id 1 7 w = Some (Inl index_out_of_bound, w)"
    by auto
  from subscript_views[OF w(2), where k = 2 and dflt = 0 and a = 4 and v = 20] p
  have 2: "subscript id 0 1 2 w = Some (4, w)" "value_at w 4 = Some 20"
    "subscript_const id 1 2 w = Some (Inr 4, w)"
    by simp_all
  from 1 2 w show ?thesis by simp
qed

subsection \<open>Clearing\<close>

lemma path_addrs:
  "path w c es t \<Longrightarrow> t \<notin> fst ` set es"
proof (induction es arbitrary: c)
  case Nil
  then show ?case by simp
next
  case (Cons e es)
  then show ?case by (auto split: option.splits)
qed

lemma clear_list_loop_spec:
  assumes m: "lhms w this = Some m"
    and "path w c es (tail m)" and "distinct (map fst es)"
  shows "\<exists>w'. clear_list_loop this c w = Some w' \<and> lhms w' = lhms w
           \<and> last_alloc w' = last_alloc w
           \<and> (\<forall>x. x \<notin> fst ` set es \<longrightarrow> nodes w' x = nodes w x)
           \<and> (\<forall>x \<in> fst ` set es. nodes w' x = None)"
  using assms
proof (induction es arbitrary: c w)
  case Nil
  then show ?case by (subst clear_list_loop.simps) simp
next
  case (Cons e es)
  obtain a kv where e: "e = (a, kv)" by (cases e)
  from path_node[OF Cons.prems(2)[unfolded e]] obtain n where n: "c = a" "a \<noteq> tail m"
    "nodes w a = Some n" "data n = Some kv" "path w (nxt n) es (tail m)" by blast
  have "a \<in> dom (nodes w)" using n(3) by auto
  from delete_Node_spec[OF this] obtain w1 where w1: "delete_Node a w = Some w1"
    "lhms w1 = lhms w" "last_alloc w1 = last_alloc w" "nodes w1 a = None"
    "\<forall>y. y \<noteq> a \<longrightarrow> nodes w1 y = nodes w y" by blast
  from Cons.prems(3) have an: "a \<notin> fst ` set es" and d: "distinct (map fst es)"
    unfolding e by auto
  have "\<forall>e \<in> set es. nodes w1 (fst e) = nodes w (fst e)"
    using an w1(5) by (metis image_eqI)
  from path_cong[OF this] n(5) have p1: "path w1 (nxt n) es (tail m)" by simp
  have m1: "lhms w1 this = Some m" using Cons.prems(1) w1(2) by simp
  from Cons.IH[OF m1 p1 d] obtain w' where w': "clear_list_loop this (nxt n) w1 = Some w'"
    "lhms w' = lhms w1" "last_alloc w' = last_alloc w1"
    "\<forall>x. x \<notin> fst ` set es \<longrightarrow> nodes w' x = nodes w1 x"
    "\<forall>x \<in> fst ` set es. nodes w' x = None" by blast
  have "clear_list_loop this c w = Some w'"
    using Cons.prems(1) n w1(1) w'(1) by (subst clear_list_loop.simps) simp
  moreover have "\<forall>x. x \<notin> fst ` set (e # es) \<longrightarrow> nodes w' x = nodes w x"
    using w'(4) w1(5) by (simp add: e)
  moreover have "\<forall>x \<in> fst ` set (e # es). nodes w' x = None"
    using w'(4,5) w1(4) an by (auto simp: e)
  ultimately show ?case using w'(2,3) w1(2,3) by simp
qed

lemma order_list_empty:
  assumes "nxt_of w h = Some t" "prev_of w t = Some h" "data_of w h = Some None"
    "data_of w t = Some None" "h \<noteq> t" "0 < h" "0 < t" "h \<le> last_alloc w" "t \<le> last_alloc w"
    "head m = h" "tail m = t"
  shows "order_list w m []"
  using assms by (simp add: order_list_def footprint_def)

lemma clear_list_spec:
  assumes m: "lhms w this = Some m" and ol: "order_list w m es"
  shows "\<exists>w'. clear_list this w = Some w' \<and> lhms w' = lhms w \<and> last_alloc w' = last_alloc w
           \<and> order_list w' m []
           \<and> (\<forall>x. x \<notin> set (footprint m es) \<longrightarrow> nodes w' x = nodes w x)
           \<and> (\<forall>x \<in> fst ` set es. nodes w' x = None)"
proof -
  from order_list_path[OF ol] obtain b where b: "nxt_of w (head m) = Some b" "path w b es (tail m)"
    by blast
  then obtain hn where hn: "nodes w (head m) = Some hn" "nxt hn = b" by (auto simp: nxt_of_def)
  from clear_list_loop_spec[OF m b(2) order_list_distinct_addrs[OF ol]] obtain w1 where
    w1: "clear_list_loop this b w = Some w1" "lhms w1 = lhms w" "last_alloc w1 = last_alloc w"
      "\<forall>x. x \<notin> fst ` set es \<longrightarrow> nodes w1 x = nodes w x"
      "\<forall>x \<in> fst ` set es. nodes w1 x = None" by blast
  from ol have ht: "head m \<notin> fst ` set es" "tail m \<notin> fst ` set es" "head m \<noteq> tail m"
    and bnd: "0 < head m" "0 < tail m" "head m \<le> last_alloc w" "tail m \<le> last_alloc w"
    and sent: "data_of w (head m) = Some None" "data_of w (tail m) = Some None"
    by (auto simp: order_list_def footprint_def)
  have same: "nodes w1 (head m) = nodes w (head m)" "nodes w1 (tail m) = nodes w (tail m)"
    using w1(4) ht by simp_all
  have s1: "data_of w1 (head m) = Some None" "data_of w1 (tail m) = Some None"
    using sent fields_cong[OF same(1)] fields_cong[OF same(2)] by simp_all
  have "head m \<in> dom (nodes w1)" using s1(1) by (rule dom_data_of)
  from set_nxt_spec[OF this, of "tail m"] obtain w2 where w2: "set_nxt (head m) (tail m) w1 = Some w2"
    "nxt_of w2 = (nxt_of w1)(head m \<mapsto> tail m)" "prev_of w2 = prev_of w1" "data_of w2 = data_of w1"
    "lhms w2 = lhms w1" "last_alloc w2 = last_alloc w1" "dom (nodes w2) = dom (nodes w1)"
    "\<forall>x. x \<noteq> head m \<longrightarrow> nodes w2 x = nodes w1 x" by blast
  have "tail m \<in> dom (nodes w2)" using s1(2) w2(7) dom_data_of by fastforce
  from set_prev_spec[OF this, of "head m"] obtain w3 where w3: "set_prev (tail m) (head m) w2 = Some w3"
    "prev_of w3 = (prev_of w2)(tail m \<mapsto> head m)" "nxt_of w3 = nxt_of w2" "data_of w3 = data_of w2"
    "lhms w3 = lhms w2" "last_alloc w3 = last_alloc w2" "dom (nodes w3) = dom (nodes w2)"
    "\<forall>x. x \<noteq> tail m \<longrightarrow> nodes w3 x = nodes w2 x" by blast
  have r: "clear_list this w = Some w3"
    using m hn w1(1) w2(1) w3(1) by (simp add: clear_list_def)
  have ol3: "order_list w3 m []"
    by (rule order_list_empty[of _ "head m" "tail m"])
      (use ht bnd s1 in \<open>simp_all add: w3 w2 w1\<close>)
  have "\<forall>x. x \<notin> set (footprint m es) \<longrightarrow> nodes w3 x = nodes w x"
    using w1(4) w2(8) w3(8) by (auto simp: footprint_def)
  moreover have "\<forall>x \<in> fst ` set es. nodes w3 x = None"
    using w1(5) w2(8) w3(8) ht by (metis)
  ultimately show ?thesis using r ol3 by (simp add: w3 w2 w1)
qed

lemma clear_spec:
  assumes inv: "lhm_inv H w this es" and m: "lhms w this = Some m"
  shows "\<exists>w' m'. clear this w = Some w' \<and> lhm_inv H w' this []
           \<and> lhms w' this = Some m' \<and> head m' = head m \<and> tail m' = tail m
           \<and> table_size m' = table_size m \<and> element_count m' = 0
           \<and> modifies w w' this (set (footprint m es))
           \<and> last_alloc w' = last_alloc w
           \<and> (\<forall>x \<in> fst ` set es. nodes w' x = None)"
proof -
  from lhm_invD'[OF inv m] obtain t where t: "table m = Some t"
    and ol: "order_list w m es"
    and bk: "buckets_ok H t (table_size m) es" by blast
  from bk have sz: "0 < table_size m" "length t = table_size m" by (simp_all add: buckets_ok_iff)
  from clear_list_spec[OF m ol] obtain w1 where
    w1: "clear_list this w = Some w1" "lhms w1 = lhms w" "last_alloc w1 = last_alloc w"
      "order_list w1 m []"
      "\<forall>x. x \<notin> set (footprint m es) \<longrightarrow> nodes w1 x = nodes w x"
      "\<forall>x \<in> fst ` set es. nodes w1 x = None" by blast
  let ?m' = "m\<lparr>table := Some (replicate (table_size m) [] @ drop (table_size m) t),
               element_count := 0\<rparr>"
  let ?w' = "set_lhm this ?m' w1"
  have r: "clear this w = Some ?w'"
    using w1(1,2) m t sz by (simp add: clear_def)
  have "order_list ?w' ?m' []"
    by (rule order_list_cong[OF w1(4)]) simp_all
  then have inv': "lhm_inv H ?w' this []"
    using sz by (intro lhm_invI[where m = ?m' and t = "replicate (table_size m) []"])
      (simp_all add: buckets_ok_empty)
  have mod: "modifies w ?w' this (set (footprint m es))"
    using w1(2,3,5) by (simp add: modifies_def)
  show ?thesis using r inv' mod w1(3,6)
    by (intro exI[of _ ?w'] exI[of _ ?m']) simp
qed

subsection \<open>Two containers\<close>

lemma other_preserved:
  assumes inv: "lhm_inv H w other eo" and mo: "lhms w other = Some mo"
    and mod: "modifies w w' this S" and ne: "other \<noteq> this"
    and disj: "S \<inter> set (footprint mo eo) = {}"
  shows "lhm_inv H w' other eo" and "lhms w' other = Some mo"
    and "\<forall>x \<in> set (footprint mo eo). nodes w' x = nodes w x"
proof -
  from lhm_invD'[OF inv mo] have ol: "order_list w mo eo" by blast
  show mo': "lhms w' other = Some mo" using mod ne mo by (simp add: modifies_def)
  show same: "\<forall>x \<in> set (footprint mo eo). nodes w' x = nodes w x"
  proof
    fix x assume x: "x \<in> set (footprint mo eo)"
    with disj have "x \<notin> S" by auto
    moreover from order_list_bound[OF ol x] have "x \<le> last_alloc w" by simp
    ultimately show "nodes w' x = nodes w x" using mod by (simp add: modifies_def)
  qed
  from mod have "last_alloc w \<le> last_alloc w'" by (simp add: modifies_def)
  with inv mo mo' same show "lhm_inv H w' other eo" by (rule lhm_inv_frame)
qed

lemma lhm_inv_bound:
  assumes "lhm_inv H w this es" and "lhms w this = Some m" and "x \<in> set (footprint m es)"
  shows "0 < x \<and> x \<le> last_alloc w"
  using lhm_invD'[OF assms(1,2)] order_list_bound assms(3) by blast

lemma copy_loop_spec:
  assumes ne: "this \<noteq> other"
    and "lhm_inv H w other (done @ rest)" and "lhms w other = Some mo"
    and "lhm_inv H w this et" and "lhms w this = Some mt"
    and "set (footprint mt et) \<inter> set (footprint mo (done @ rest)) = {}"
    and "path w c rest (tail mo)"
    and "keys_of et \<inter> keys_of rest = {}"
  shows "\<exists>w' mt' et'. copy_loop H this other c w = Some w'
           \<and> lhm_inv H w' this (et @ et') \<and> map snd et' = map snd rest
           \<and> lhms w' this = Some mt' \<and> head mt' = head mt \<and> tail mt' = tail mt
           \<and> lhm_inv H w' other (done @ rest) \<and> lhms w' other = Some mo
           \<and> (\<forall>x \<in> set (footprint mo (done @ rest)). nodes w' x = nodes w x)
           \<and> modifies w w' this (set (footprint mt et))
           \<and> (\<forall>x \<in> fst ` set et'. last_alloc w < x)
           \<and> (load_ok mt \<longrightarrow> load_ok mt')
           \<and> (4 * (element_count mt + length rest) \<le> 3 * table_size mt
                \<longrightarrow> table_size mt' = table_size mt)"
  using assms(2-)
proof (induction rest arbitrary: c w et mt "done")
  case Nil
  then show ?case
    by (subst copy_loop.simps) (auto simp: modifies_refl)
next
  case (Cons e rest)
  obtain a k v where e: "e = (a, k, v)" by (cases e)
  let ?eo = "done @ e # rest"
  note inv_o = Cons.prems(1) and mo = Cons.prems(2) and inv_t = Cons.prems(3)
    and mt = Cons.prems(4) and sep = Cons.prems(5) and keys = Cons.prems(7)
  from path_node[OF Cons.prems(6)[unfolded e]] obtain n where n: "c = a" "a \<noteq> tail mo"
    "nodes w a = Some n" "data n = Some (k, v)" "path w (nxt n) rest (tail mo)" by blast
  have abs: "k \<notin> (\<lambda>e. fst (snd e)) ` set et"
    using keys by (auto simp: e keys_of_def)
  let ?b = "Suc (last_alloc w)"
  from insert_absent[OF inv_t mt abs, of v] obtain w1 m1 where
    i: "insert_lhm H this (k, v) w = Some ((\<lparr>it_node = ?b, it_map = this\<rparr>, True), w1)"
    and inv1: "lhm_inv H w1 this (et @ [(?b, k, v)])"
    and m1: "lhms w1 this = Some m1" "head m1 = head mt" "tail m1 = tail mt"
      "table_size m1 = (if load_factor_reached mt then 2 * table_size mt else table_size mt)"
      "element_count m1 = element_count mt + 1"
    and mod1: "modifies w w1 this (set (footprint mt et))"
    and la1: "last_alloc w1 = ?b"
    by blast
  from other_preserved[OF inv_o mo mod1 ne[symmetric] sep]
  have inv_o1: "lhm_inv H w1 other ?eo" and mo1: "lhms w1 other = Some mo"
    and same1: "\<forall>x \<in> set (footprint mo ?eo). nodes w1 x = nodes w x" by blast+
  have afp: "a \<in> set (footprint mo ?eo)" by (simp add: footprint_def e)
  with same1 n(3) have n1: "nodes w1 a = Some n" by simp
  have "\<forall>e' \<in> set rest. nodes w1 (fst e') = nodes w (fst e')"
    using same1 by (auto simp: footprint_def)
  from path_cong[OF this] n(5) have p1: "path w1 (nxt n) rest (tail mo)" by simp
  have fp1: "set (footprint m1 (et @ [(?b, k, v)])) = insert ?b (set (footprint mt et))"
    by (auto simp: footprint_def m1)
  have bfresh: "?b \<notin> set (footprint mo ?eo)"
    using lhm_inv_bound[OF inv_o mo] by fastforce
  have sep1: "set (footprint m1 (et @ [(?b, k, v)])) \<inter> set (footprint mo ((done @ [e]) @ rest)) = {}"
    using sep bfresh by (simp add: fp1)
  from lhm_invD'[OF inv_o mo] have "distinct (map (\<lambda>e. fst (snd e)) ?eo)" by blast
  then have "k \<notin> keys_of rest" by (auto simp: e keys_of_def)
  with keys have keys1: "keys_of (et @ [(?b, k, v)]) \<inter> keys_of rest = {}"
    by (auto simp: e keys_of_def)
  have inv_o1': "lhm_inv H w1 other ((done @ [e]) @ rest)" using inv_o1 by simp
  from Cons.IH[OF inv_o1' mo1 inv1 m1(1) sep1 p1 keys1] obtain w' mt' et' where
    r: "copy_loop H this other (nxt n) w1 = Some w'"
    and inv': "lhm_inv H w' this ((et @ [(?b, k, v)]) @ et')" and es': "map snd et' = map snd rest"
    and mt': "lhms w' this = Some mt'" "head mt' = head m1" "tail mt' = tail m1"
    and inv_o': "lhm_inv H w' other ((done @ [e]) @ rest)" and mo': "lhms w' other = Some mo"
    and same': "\<forall>x \<in> set (footprint mo ((done @ [e]) @ rest)). nodes w' x = nodes w1 x"
    and mod': "modifies w1 w' this (set (footprint m1 (et @ [(?b, k, v)])))"
    and fresh': "\<forall>x \<in> fst ` set et'. last_alloc w1 < x"
    and lo': "load_ok m1 \<longrightarrow> load_ok mt'"
    and ts': "4 * (element_count m1 + length rest) \<le> 3 * table_size m1
                \<longrightarrow> table_size mt' = table_size m1"
    by blast
  have res: "copy_loop H this other c w = Some w'"
    using mo n i n1 r by (subst copy_loop.simps) simp
  have mod: "modifies w w' this (set (footprint mt et))"
    using mod1 mod' by (rule modifies_trans) (auto simp: fp1)
  have lo: "load_ok mt \<longrightarrow> load_ok mt'"
    using lo' load_ok_insert[OF _ lhm_inv_size_pos[OF inv_t mt] m1(4,5)] by blast
  have ts: "4 * (element_count mt + length (e # rest)) \<le> 3 * table_size mt
                \<longrightarrow> table_size mt' = table_size mt"
  proof
    assume b: "4 * (element_count mt + length (e # rest)) \<le> 3 * table_size mt"
    then have "\<not> load_factor_reached mt" by (simp add: load_factor_reached_def)
    with m1(4) have "table_size m1 = table_size mt" by simp
    with b m1(5) ts' show "table_size mt' = table_size mt" by simp
  qed
  have same: "\<forall>x \<in> set (footprint mo ?eo). nodes w' x = nodes w x"
    using same' same1 by simp
  show ?case
    using res inv' es' mt' m1(2,3) inv_o' mo' same mod fresh' la1 lo ts
    by (intro exI[of _ w'] exI[of _ mt'] exI[of _ "(?b, k, v) # et'"]) (auto simp: e)
qed

subsection \<open>Copying\<close>

lemma sentinels_spec:
  fixes w :: "('k, 'v) world"
  defines "h \<equiv> Suc (last_alloc w)" and "t \<equiv> Suc (Suc (last_alloc w))"
  defines "m3 \<equiv> \<lparr>table = None, table_size = 0, element_count = 0, head = h, tail = t\<rparr>"
  shows "\<exists>w1 w2 w4 w5. new_Node None w = (h, w1) \<and> new_Node None w1 = (t, w2)
           \<and> set_nxt h t (set_lhm this m3 w2) = Some w4 \<and> set_prev t h w4 = Some w5
           \<and> lhms w5 = (lhms w)(this \<mapsto> m3) \<and> last_alloc w5 = t
           \<and> (\<forall>x. x \<noteq> h \<and> x \<noteq> t \<longrightarrow> nodes w5 x = nodes w x)
           \<and> order_list w5 m3 []"
proof -
  from new_Node_spec[of None w] obtain w1 where
    n1: "new_Node None w = (h, w1)"
    and w1: "nxt_of w1 = (nxt_of w)(h \<mapsto> nullptr)" "prev_of w1 = (prev_of w)(h \<mapsto> nullptr)"
      "data_of w1 = (data_of w)(h \<mapsto> None)" "lhms w1 = lhms w"
      "last_alloc w1 = h" "\<forall>x. x \<noteq> h \<longrightarrow> nodes w1 x = nodes w x"
    unfolding h_def by auto
  from new_Node_spec[of None w1] obtain w2 where
    n2: "new_Node None w1 = (t, w2)"
    and w2: "nxt_of w2 = (nxt_of w1)(t \<mapsto> nullptr)" "prev_of w2 = (prev_of w1)(t \<mapsto> nullptr)"
      "data_of w2 = (data_of w1)(t \<mapsto> None)" "lhms w2 = lhms w1"
      "last_alloc w2 = t" "\<forall>x. x \<noteq> t \<longrightarrow> nodes w2 x = nodes w1 x"
    unfolding t_def by (auto simp: w1 h_def)
  let ?w3 = "set_lhm this m3 w2"
  have ht: "h \<noteq> t" "0 < h" "0 < t" "h \<le> t" by (simp_all add: h_def t_def)
  have "h \<in> dom (nodes ?w3)" by (rule dom_data_of[of _ _ None]) (simp add: w2 w1 ht)
  from set_nxt_spec[OF this, of t] obtain w4 where w4: "set_nxt h t ?w3 = Some w4"
    "nxt_of w4 = (nxt_of ?w3)(h \<mapsto> t)" "prev_of w4 = prev_of ?w3" "data_of w4 = data_of ?w3"
    "lhms w4 = lhms ?w3" "last_alloc w4 = last_alloc ?w3" "dom (nodes w4) = dom (nodes ?w3)"
    "\<forall>x. x \<noteq> h \<longrightarrow> nodes w4 x = nodes ?w3 x" by blast
  have "t \<in> dom (nodes w4)" by (rule dom_data_of[of _ _ None]) (simp add: w4 w2 w1)
  from set_prev_spec[OF this, of h] obtain w5 where w5: "set_prev t h w4 = Some w5"
    "prev_of w5 = (prev_of w4)(t \<mapsto> h)" "nxt_of w5 = nxt_of w4" "data_of w5 = data_of w4"
    "lhms w5 = lhms w4" "last_alloc w5 = last_alloc w4" "dom (nodes w5) = dom (nodes w4)"
    "\<forall>x. x \<noteq> t \<longrightarrow> nodes w5 x = nodes w4 x" by blast
  have ol: "order_list w5 m3 []"
    by (rule order_list_empty[of _ h t]) (use ht in \<open>simp_all add: w5 w4 w2 w1 m3_def\<close>)
  have "\<forall>x. x \<noteq> h \<and> x \<noteq> t \<longrightarrow> nodes w5 x = nodes w x"
    using w5(8) w4(8) w2(6) w1(6) by simp
  with n1 n2 w4(1) w5(1) ol show ?thesis
    by (intro exI[of _ w1] exI[of _ w2] exI[of _ w4] exI[of _ w5]) (simp add: w5 w4 w2 w1)
qed

lemma linked_hashmap_copy_spec:
  fixes w :: "('k, 'v) world"
  assumes ne: "this \<noteq> other"
    and inv_o: "lhm_inv H w other eo" and mo: "lhms w other = Some mo"
  shows "\<exists>w' mt' et'. linked_hashmap_copy H this other w = Some w'
           \<and> lhm_inv H w' this et' \<and> map snd et' = map snd eo \<and> lhms w' this = Some mt'
           \<and> lhm_inv H w' other eo \<and> lhms w' other = Some mo
           \<and> (\<forall>x \<in> set (footprint mo eo). nodes w' x = nodes w x)
           \<and> set (footprint mt' et') \<inter> set (footprint mo eo) = {}
           \<and> modifies w w' this {}
           \<and> (load_ok mo \<longrightarrow> load_ok mt' \<and> table_size mt' = table_size mo)"
proof -
  define h t where "h = Suc (last_alloc w)" and "t = Suc (Suc (last_alloc w))"
  define m3 where "m3 = \<lparr>table = None, table_size = 0, element_count = 0, head = h, tail = t\<rparr>"
  from sentinels_spec[of w this] obtain w1 w2 w4 w5 where
    s: "new_Node None w = (h, w1)" "new_Node None w1 = (t, w2)"
      "set_nxt h t (set_lhm this m3 w2) = Some w4" "set_prev t h w4 = Some w5"
    and w5: "lhms w5 = (lhms w)(this \<mapsto> m3)" "last_alloc w5 = t"
      "\<forall>x. x \<noteq> h \<and> x \<noteq> t \<longrightarrow> nodes w5 x = nodes w x"
    and ol5: "order_list w5 m3 []"
    unfolding h_def t_def m3_def by blast
  let ?m6 = "m3\<lparr>table_size := table_size mo, table := Some (replicate (table_size mo) [])\<rparr>"
  let ?w6 = "set_lhm this ?m6 w5"
  have pos: "0 < table_size mo" using inv_o mo by (rule lhm_inv_size_pos)
  have ol6: "order_list ?w6 ?m6 []"
    by (rule order_list_cong[OF ol5]) simp_all
  have inv6: "lhm_inv H ?w6 this []"
    using ol6 pos by (intro lhm_invI[where m = ?m6 and t = "replicate (table_size mo) []"])
      (simp_all add: buckets_ok_empty m3_def)
  have mod6: "modifies w ?w6 this {}"
    using w5 by (simp add: modifies_def h_def t_def)
  from other_preserved[OF inv_o mo mod6 ne[symmetric]]
  have inv_o6: "lhm_inv H ?w6 other eo" and mo6: "lhms ?w6 other = Some mo"
    and same6: "\<forall>x \<in> set (footprint mo eo). nodes ?w6 x = nodes w x" by simp_all
  have mo5: "lhms w5 other = Some mo" using mo ne by (simp add: w5)
  from lhm_invD'[OF inv_o6 mo6] have olo: "order_list ?w6 mo eo" by blast
  from order_list_path[OF olo] obtain b where b: "nxt_of ?w6 (head mo) = Some b"
    "path ?w6 b eo (tail mo)" by blast
  then obtain ohn where ohn: "nodes ?w6 (head mo) = Some ohn" "nxt ohn = b"
    by (auto simp: nxt_of_def)
  have bo: "x \<le> last_alloc w" if "x \<in> set (footprint mo eo)" for x
    using lhm_inv_bound[OF inv_o mo that] by simp
  have fp6: "set (footprint m3 ([] :: ('k, 'v) entry list)) = {h, t}" by (auto simp: footprint_def m3_def)
  have "h \<notin> set (footprint mo eo)" "t \<notin> set (footprint mo eo)"
    using bo[of h] bo[of t] by (auto simp: h_def t_def)
  then have sep6: "set (footprint ?m6 ([] :: ('k, 'v) entry list)) \<inter> set (footprint mo ([] @ eo)) = {}"
    by (simp add: fp6)
  have m6: "lhms ?w6 this = Some ?m6" by simp
  have inv_o6': "lhm_inv H ?w6 other ([] @ eo)" using inv_o6 by simp
  have k0: "keys_of ([] :: ('k, 'v) entry list) \<inter> keys_of eo = {}" by (simp add: keys_of_def)
  from copy_loop_spec[OF ne inv_o6' mo6 inv6 m6 sep6 b(2) k0]
  obtain w' mt' et' where
    r: "copy_loop H this other b ?w6 = Some w'"
    and inv'0: "lhm_inv H w' this ([] @ et')" and es': "map snd et' = map snd eo"
    and mt': "lhms w' this = Some mt'" "head mt' = head ?m6" "tail mt' = tail ?m6"
    and inv_o'0: "lhm_inv H w' other ([] @ eo)" and mo': "lhms w' other = Some mo"
    and same'0: "\<forall>x \<in> set (footprint mo ([] @ eo)). nodes w' x = nodes ?w6 x"
    and mod': "modifies ?w6 w' this (set (footprint ?m6 ([] :: ('k, 'v) entry list)))"
    and fresh': "\<forall>x \<in> fst ` set et'. last_alloc ?w6 < x"
    and lo': "load_ok ?m6 \<longrightarrow> load_ok mt'"
    and ts': "4 * (element_count ?m6 + length eo) \<le> 3 * table_size ?m6
                \<longrightarrow> table_size mt' = table_size ?m6"
    by blast
  have inv': "lhm_inv H w' this et'" and inv_o': "lhm_inv H w' other eo"
    and same': "\<forall>x \<in> set (footprint mo eo). nodes w' x = nodes ?w6 x"
    using inv'0 inv_o'0 same'0 by simp_all
  have res: "linked_hashmap_copy H this other w = Some w'"
    using s mo5 mo6 ohn r ne mo
    by (simp add: linked_hashmap_copy_def init_table_def w5 h_def t_def m3_def)
  have mod: "modifies w w' this {}"
    using mod6 mod' by (rule modifies_trans) (auto simp: fp6 h_def t_def)
  have fp': "set (footprint mt' et') = {h, t} \<union> fst ` set et'"
    by (auto simp: footprint_def mt' m3_def)
  have sep': "set (footprint mt' et') \<inter> set (footprint mo eo) = {}"
  proof -
    have "last_alloc w < x" if "x \<in> set (footprint mt' et')" for x
      using that fresh' w5(2) by (auto simp: fp' h_def t_def)
    with bo show ?thesis by fastforce
  qed
  have lo: "load_ok mo \<longrightarrow> load_ok mt' \<and> table_size mt' = table_size mo"
  proof
    assume l: "load_ok mo"
    from lhm_invD'[OF inv_o mo] have "element_count mo = length eo" by blast
    with l have "load_ok ?m6" "4 * (element_count ?m6 + length eo) \<le> 3 * table_size ?m6"
      by (simp_all add: load_ok_def m3_def)
    with lo' ts' show "load_ok mt' \<and> table_size mt' = table_size mo" by simp
  qed
  have same: "\<forall>x \<in> set (footprint mo eo). nodes w' x = nodes w x"
    using same' same6 by simp
  show ?thesis
    using res inv' es' mt'(1) inv_o' mo' same sep' mod lo by blast
qed

lemma assign_spec:
  fixes w :: "('k, 'v) world"
  assumes ne: "this \<noteq> other"
    and inv_t: "lhm_inv H w this et" and mt: "lhms w this = Some mt"
    and inv_o: "lhm_inv H w other eo" and mo: "lhms w other = Some mo"
    and sep: "set (footprint mt et) \<inter> set (footprint mo eo) = {}"
  shows "\<exists>w' mt' et'. assign H this other w = Some w'
           \<and> lhm_inv H w' this et' \<and> map snd et' = map snd eo \<and> lhms w' this = Some mt'
           \<and> lhm_inv H w' other eo \<and> lhms w' other = Some mo
           \<and> (\<forall>x \<in> set (footprint mo eo). nodes w' x = nodes w x)
           \<and> set (footprint mt' et') \<inter> set (footprint mo eo) = {}
           \<and> modifies w w' this (set (footprint mt et))
           \<and> (load_ok mo \<longrightarrow> load_ok mt' \<and> table_size mt' = table_size mo)"
proof -
  from clear_spec[OF inv_t mt] obtain w1 m1 where
    c: "clear this w = Some w1" and inv1: "lhm_inv H w1 this []"
    and m1: "lhms w1 this = Some m1" "head m1 = head mt" "tail m1 = tail mt"
      "element_count m1 = 0"
    and mod1: "modifies w w1 this (set (footprint mt et))"
    and la1: "last_alloc w1 = last_alloc w" by blast
  from lhm_invD'[OF inv1 m1(1)] obtain t1 where t1: "table m1 = Some t1"
    "order_list w1 m1 []" "buckets_ok H t1 (table_size m1) ([] :: ('k, 'v) entry list)" by blast
  from t1(3) have len: "length t1 = table_size m1" by (simp add: buckets_ok_iff)
  let ?m2 = "m1\<lparr>table := None\<rparr>"
  let ?w2 = "set_lhm this ?m2 w1"
  have c2: "clear_table this w1 = Some ?w2"
    using m1(1) t1(1) len by (simp add: clear_table_def)
  from other_preserved[OF inv_o mo mod1 ne[symmetric] sep]
  have inv_o1: "lhm_inv H w1 other eo" and mo1: "lhms w1 other = Some mo"
    and same1: "\<forall>x \<in> set (footprint mo eo). nodes w1 x = nodes w x" by blast+
  let ?m3 = "?m2\<lparr>table_size := table_size mo, table := Some (replicate (table_size mo) [])\<rparr>"
  let ?w3 = "set_lhm this ?m3 ?w2"
  have mo2: "lhms ?w2 other = Some mo" using mo1 ne by simp
  have c3: "init_table this (table_size mo) ?w2 = Some ?w3"
    by (simp add: init_table_def)
  have pos: "0 < table_size mo" using inv_o mo by (rule lhm_inv_size_pos)
  have ol3: "order_list ?w3 ?m3 []"
    by (rule order_list_cong[OF t1(2)]) simp_all
  have inv3: "lhm_inv H ?w3 this []"
    using ol3 pos m1(4)
    by (intro lhm_invI[where m = ?m3 and t = "replicate (table_size mo) []"])
      (simp_all add: buckets_ok_empty)
  have mod3: "modifies w ?w3 this (set (footprint mt et))"
    using mod1 by (simp add: modifies_def)
  from other_preserved[OF inv_o mo mod3 ne[symmetric] sep]
  have inv_o3: "lhm_inv H ?w3 other eo" and mo3: "lhms ?w3 other = Some mo"
    and same3: "\<forall>x \<in> set (footprint mo eo). nodes ?w3 x = nodes w x" by blast+
  from lhm_invD'[OF inv_o3 mo3] have olo: "order_list ?w3 mo eo" by blast
  from order_list_path[OF olo] obtain b where b: "nxt_of ?w3 (head mo) = Some b"
    "path ?w3 b eo (tail mo)" by blast
  then obtain ohn where ohn: "nodes ?w3 (head mo) = Some ohn" "nxt ohn = b"
    by (auto simp: nxt_of_def)
  have fp3: "set (footprint m1 ([] :: ('k, 'v) entry list)) = {head mt, tail mt}" by (auto simp: footprint_def m1)
  have sub3: "set (footprint ?m3 ([] :: ('k, 'v) entry list)) \<subseteq> set (footprint mt et)"
    by (auto simp: footprint_def m1)
  have sep3: "set (footprint ?m3 ([] :: ('k, 'v) entry list)) \<inter> set (footprint mo ([] @ eo)) = {}"
    using sep sub3 by auto
  have m3: "lhms ?w3 this = Some ?m3" by simp
  have inv_o3': "lhm_inv H ?w3 other ([] @ eo)" using inv_o3 by simp
  have k0: "keys_of ([] :: ('k, 'v) entry list) \<inter> keys_of eo = {}" by (simp add: keys_of_def)
  from copy_loop_spec[OF ne inv_o3' mo3 inv3 m3 sep3 b(2) k0]
  obtain w' mt' et' where
    r: "copy_loop H this other b ?w3 = Some w'"
    and inv'0: "lhm_inv H w' this ([] @ et')" and es': "map snd et' = map snd eo"
    and mt': "lhms w' this = Some mt'" "head mt' = head ?m3" "tail mt' = tail ?m3"
    and inv_o'0: "lhm_inv H w' other ([] @ eo)" and mo': "lhms w' other = Some mo"
    and same'0: "\<forall>x \<in> set (footprint mo ([] @ eo)). nodes w' x = nodes ?w3 x"
    and mod': "modifies ?w3 w' this (set (footprint ?m3 ([] :: ('k, 'v) entry list)))"
    and fresh': "\<forall>x \<in> fst ` set et'. last_alloc ?w3 < x"
    and lo': "load_ok ?m3 \<longrightarrow> load_ok mt'"
    and ts': "4 * (element_count ?m3 + length eo) \<le> 3 * table_size ?m3
                \<longrightarrow> table_size mt' = table_size ?m3"
    by blast
  have inv': "lhm_inv H w' this et'" and inv_o': "lhm_inv H w' other eo"
    and same': "\<forall>x \<in> set (footprint mo eo). nodes w' x = nodes ?w3 x"
    using inv'0 inv_o'0 same'0 by simp_all
  have res: "assign H this other w = Some w'"
    using ne c c2 mo2 c3 mo3 ohn r by (simp add: assign_def)
  have mod: "modifies w w' this (set (footprint mt et))"
    using mod3 mod' by (rule modifies_trans) (use sub3 in auto)
  have bo: "x \<le> last_alloc w" if "x \<in> set (footprint mo eo)" for x
    using lhm_inv_bound[OF inv_o mo that] by simp
  have fp': "set (footprint mt' et') = {head mt, tail mt} \<union> fst ` set et'"
    by (auto simp: footprint_def mt' m1)
  have sep': "set (footprint mt' et') \<inter> set (footprint mo eo) = {}"
  proof -
    have ends: "head mt \<in> set (footprint mt et)" "tail mt \<in> set (footprint mt et)"
      by (simp_all add: footprint_def)
    have "x \<in> set (footprint mt et) \<or> last_alloc w < x" if "x \<in> set (footprint mt' et')" for x
    proof -
      from that have "x = head mt \<or> x = tail mt \<or> x \<in> fst ` set et'"
        unfolding fp' by auto
      with ends fresh' la1 show ?thesis by auto
    qed
    with bo sep show ?thesis by fastforce
  qed
  have lo: "load_ok mo \<longrightarrow> load_ok mt' \<and> table_size mt' = table_size mo"
  proof
    assume l: "load_ok mo"
    from lhm_invD'[OF inv_o mo] have "element_count mo = length eo" by blast
    with l m1(4) have "load_ok ?m3" "4 * (element_count ?m3 + length eo) \<le> 3 * table_size ?m3"
      by (simp_all add: load_ok_def)
    with lo' ts' show "load_ok mt' \<and> table_size mt' = table_size mo" by simp
  qed
  have same: "\<forall>x \<in> set (footprint mo eo). nodes w' x = nodes w x"
    using same' same3 by simp
  show ?thesis
    using res inv' es' mt'(1) inv_o' mo' same sep' mod lo by blast
qed

subsection \<open>Mutations of one container next to another\<close>

lemma end_lhm_eq: "lhms w this = Some m \<Longrightarrow> end_lhm this w = Some \<lparr>it_node = tail m, it_map = this\<rparr>"
  by (simp add: end_lhm_def)

lemma mutate_spec:
  assumes inv: "lhm_inv H w this et" and mt: "lhms w this = Some mt"
  shows "\<exists>w' mt' et'. mutate H dflt this x w = Some w' \<and> lhm_inv H w' this et'
           \<and> lhms w' this = Some mt'
           \<and> modifies w w' this (set (footprint mt et))
           \<and> (\<forall>a \<in> set (footprint mt' et'). a \<in> set (footprint mt et) \<or> last_alloc w < a)
           \<and> (load_ok mt \<longrightarrow> load_ok mt')"
proof -
  have keep: "\<exists>w' mt' et'. Some w = Some w' \<and> lhm_inv H w' this et'
           \<and> lhms w' this = Some mt'
           \<and> modifies w w' this (set (footprint mt et))
           \<and> (\<forall>a \<in> set (footprint mt' et'). a \<in> set (footprint mt et) \<or> last_alloc w < a)
           \<and> (load_ok mt \<longrightarrow> load_ok mt')"
    using inv mt modifies_refl by blast
  have ins: "\<exists>w' mt' et'. map_option snd (insert_lhm H this (k, v) w) = Some w'
           \<and> lhm_inv H w' this et' \<and> lhms w' this = Some mt'
           \<and> modifies w w' this (set (footprint mt et))
           \<and> (\<forall>a \<in> set (footprint mt' et'). a \<in> set (footprint mt et) \<or> last_alloc w < a)
           \<and> (load_ok mt \<longrightarrow> load_ok mt')"
    for k v
  proof (cases "k \<in> keys_of et")
    case True
    then obtain a v0 where "(a, k, v0) \<in> set et" by (rule key_present)
    from insert_present[OF inv this, of v] keep show ?thesis by simp
  next
    case False
    from insert_absent[OF inv mt False[unfolded keys_of_def], of v] obtain w' m' where
      i: "insert_lhm H this (k, v) w
             = Some ((\<lparr>it_node = Suc (last_alloc w), it_map = this\<rparr>, True), w')"
      and inv': "lhm_inv H w' this (et @ [(Suc (last_alloc w), k, v)])"
      and m': "lhms w' this = Some m'" "head m' = head mt" "tail m' = tail mt"
        "table_size m' = (if load_factor_reached mt then 2 * table_size mt else table_size mt)"
        "element_count m' = element_count mt + 1"
      and mod: "modifies w w' this (set (footprint mt et))"
      by blast
    have lo: "load_ok mt \<longrightarrow> load_ok m'"
      using load_ok_insert[OF _ lhm_inv_size_pos[OF inv mt] m'(4,5)] by blast
    have "set (footprint m' (et @ [(Suc (last_alloc w), k, v)]))
        = insert (Suc (last_alloc w)) (set (footprint mt et))"
      by (auto simp: footprint_def m')
    with i inv' m'(1) mod lo show ?thesis
      by (intro exI[of _ w'] exI[of _ m'] exI[of _ "et @ [(Suc (last_alloc w), k, v)]"]) auto
  qed
  show ?thesis
  proof (cases x)
    case (Insert k v)
    from ins[of k v] show ?thesis
      by (auto simp: Insert split: Option.bind_splits)
  next
    case (Erase_key k)
    show ?thesis
    proof (cases "k \<in> keys_of et")
      case True
      then obtain a v where mem: "(a, k, v) \<in> set et" by (rule key_present)
      then obtain es1 es2 where et: "et = es1 @ (a, k, v) # es2" by (auto dest: split_list)
      from find_node_present[OF inv mem] have f: "find_lhm H this k w = Some \<lparr>it_node = a, it_map = this\<rparr>"
        by (simp add: find_lhm_def)
      from erase_spec[OF inv[unfolded et] mt] obtain w' m' where
        e: "erase H this \<lparr>it_node = a, it_map = this\<rparr> w = Some (Inr (), w')"
        and inv': "lhm_inv H w' this (es1 @ es2)"
        and m': "lhms w' this = Some m'" "head m' = head mt" "tail m' = tail mt"
          "table_size m' = table_size mt" "element_count m' = element_count mt - 1"
        and mod: "modifies w w' this (set (footprint mt et))"
        unfolding et by blast
      have lo: "load_ok mt \<longrightarrow> load_ok m'"
        using load_ok_erase[OF _ m'(4)] m'(5) by simp
      have "set (footprint m' (es1 @ es2)) \<subseteq> set (footprint mt et)"
        by (auto simp: footprint_def m' et)
      with f e inv' m'(1) mod lo show ?thesis
        by (intro exI[of _ w'] exI[of _ m'] exI[of _ "es1 @ es2"]) (auto simp: Erase_key)
    next
      case False
      from find_node_absent[OF inv False[unfolded keys_of_def]] mt
      have f: "find_lhm H this k w = Some \<lparr>it_node = tail mt, it_map = this\<rparr>"
        by (simp add: find_lhm_def end_lhm_def)
      from erase_invalid[OF mt, of "\<lparr>it_node = tail mt, it_map = this\<rparr>" H]
      have "erase H this \<lparr>it_node = tail mt, it_map = this\<rparr> w = Some (Inl invalid_iterator, w)"
        by simp
      with f keep show ?thesis by (simp add: Erase_key)
    qed
  next
    case (Index k)
    show ?thesis
    proof (cases "k \<in> keys_of et")
      case True
      then obtain a v where mem: "(a, k, v) \<in> set et" by (rule key_present)
      from find_node_present[OF inv mem] entry_deref(3)[OF inv mem]
      have "subscript H dflt this k w = Some (a, w)" by (simp add: subscript_def)
      with keep show ?thesis by (simp add: Index)
    next
      case False
      from insert_absent[OF inv mt False[unfolded keys_of_def], of dflt] obtain w1 where
        i: "insert_lhm H this (k, dflt) w
             = Some ((\<lparr>it_node = Suc (last_alloc w), it_map = this\<rparr>, True), w1)"
        and inv1: "lhm_inv H w1 this (et @ [(Suc (last_alloc w), k, dflt)])" by blast
      have v: "value_at w1 (Suc (last_alloc w)) = Some dflt"
        using entry_deref(3)[OF inv1, of "Suc (last_alloc w)" "(k, dflt)"] by simp
      have "subscript H dflt this k w = Some (Suc (last_alloc w), w1)"
        using find_node_absent[OF inv False[unfolded keys_of_def]] i v
        by (simp add: subscript_def)
      with ins[of k dflt] i show ?thesis by (simp add: Index)
    qed
  next
    case Clear
    from clear_spec[OF inv mt] obtain w' m' where
      c: "clear this w = Some w'" and inv': "lhm_inv H w' this []"
      and m': "lhms w' this = Some m'" "head m' = head mt" "tail m' = tail mt"
        "table_size m' = table_size mt" "element_count m' = 0"
      and mod: "modifies w w' this (set (footprint mt et))" by blast
    have lo: "load_ok mt \<longrightarrow> load_ok m'"
      using load_ok_erase[OF _ m'(4)] m'(5) by simp
    have "set (footprint m' ([] :: ('a, 'b) entry list)) \<subseteq> set (footprint mt et)"
      by (auto simp: footprint_def m')
    with c inv' m'(1) mod lo show ?thesis
      by (intro exI[of _ w'] exI[of _ m'] exI[of _ "[]"]) (auto simp: Clear)
  qed
qed

lemma mutate_all_spec:
  assumes ne: "this \<noteq> other"
    and "lhm_inv H w this et" and "lhms w this = Some mt"
    and "lhm_inv H w other eo" and "lhms w other = Some mo"
    and "set (footprint mt et) \<inter> set (footprint mo eo) = {}"
  shows "\<exists>w'. mutate_all H dflt this xs w = Some w' \<and> lhm_inv H w' other eo
           \<and> lhms w' other = Some mo
           \<and> (\<forall>a \<in> set (footprint mo eo). nodes w' a = nodes w a)"
  using assms(2-)
proof (induction xs arbitrary: w et mt)
  case Nil
  then show ?case by simp
next
  case (Cons x xs)
  from mutate_spec[OF Cons.prems(1,2), of dflt x] obtain w1 m1 e1 where
    s: "mutate H dflt this x w = Some w1" and inv1: "lhm_inv H w1 this e1"
    and m1: "lhms w1 this = Some m1"
    and mod: "modifies w w1 this (set (footprint mt et))"
    and fp: "\<forall>a \<in> set (footprint m1 e1). a \<in> set (footprint mt et) \<or> last_alloc w < a"
    by blast
  from other_preserved[OF Cons.prems(3,4) mod ne[symmetric] Cons.prems(5)]
  have inv_o1: "lhm_inv H w1 other eo" and mo1: "lhms w1 other = Some mo"
    and same1: "\<forall>a \<in> set (footprint mo eo). nodes w1 a = nodes w a" by blast+
  have sep1: "set (footprint m1 e1) \<inter> set (footprint mo eo) = {}"
  proof -
    have "a \<le> last_alloc w" if "a \<in> set (footprint mo eo)" for a
      using lhm_inv_bound[OF Cons.prems(3,4) that] by simp
    with fp Cons.prems(5) show ?thesis by fastforce
  qed
  from Cons.IH[OF inv1 m1 inv_o1 mo1 sep1] obtain w' where
    r: "mutate_all H dflt this xs w1 = Some w'" "lhm_inv H w' other eo"
      "lhms w' other = Some mo" "\<forall>a \<in> set (footprint mo eo). nodes w' a = nodes w1 a"
    by blast
  with s same1 show ?case by simp
qed

lemma mutate_all_wf:
  assumes "lhm_wf H w this et"
  shows "\<exists>w' m' es. mutate_all H dflt this xs w = Some w' \<and> lhms w' this = Some m'
           \<and> lhm_wf H w' this es"
  using assms
proof (induction xs arbitrary: w et)
  case Nil
  then show ?case using lhm_wfD(2) by fastforce
next
  case (Cons x xs)
  from lhm_wfD[OF Cons.prems] obtain mt where inv: "lhm_inv H w this et"
    and mt: "lhms w this = Some mt" "load_ok mt" by blast
  from mutate_spec[OF inv mt(1), of dflt x] mt(2) obtain w1 m1 e1 where
    s: "mutate H dflt this x w = Some w1" "lhm_inv H w1 this e1" "lhms w1 this = Some m1"
      "load_ok m1" by blast
  from s(2,3,4) have "lhm_wf H w1 this e1" by (rule lhm_wfI)
  from Cons.IH[OF this] s(1) show ?case by simp
qed

lemma same_lookup:
  assumes a: "lhm_inv H w a ea" and b: "lhm_inv H w b eb" and eq: "map snd ea = map snd eb"
  shows "(k \<notin> keys_of eb \<and> find_lhm H a k w = end_lhm a w \<and> find_lhm H b k w = end_lhm b w)
       \<or> (\<exists>it1 it2 kv. find_lhm H a k w = Some it1 \<and> find_lhm H b k w = Some it2
             \<and> end_lhm a w \<noteq> Some it1 \<and> end_lhm b w \<noteq> Some it2
             \<and> iterator_deref w it1 = Some kv \<and> iterator_deref w it2 = Some kv \<and> fst kv = k)"
proof (cases "k \<in> keys_of eb")
  case True
  then obtain x v where "(x, k, v) \<in> set eb" by (rule key_present)
  then have "(k, v) \<in> set (map snd eb)" by force
  with find_pairs[OF a, of "(k, v)"] find_pairs[OF b, of "(k, v)"] eq show ?thesis
    by auto
next
  case False
  have "keys_of ea = fst ` set (map snd ea)" "keys_of eb = fst ` set (map snd eb)"
    by (auto simp: keys_of_def image_image)
  with eq False have "k \<notin> keys_of ea" by simp
  with find_node_absent[OF a, of k] find_node_absent[OF b, of k] False show ?thesis
    by (simp add: keys_of_def find_lhm_def)
qed

lemma separate_iff:
  "separate w a ea b eb \<longleftrightarrow>
     a \<noteq> b \<and> (\<exists>ma mb. lhms w a = Some ma \<and> lhms w b = Some mb
        \<and> set (footprint ma ea) \<inter> set (footprint mb eb) = {})"
  by (auto simp: separate_def list_all_iff split: option.splits)

lemma find_same:
  assumes "lhm_inv H w t es" and "lhm_inv H w' t es" and "lhms w' t = lhms w t"
  shows "find_lhm H t k w' = find_lhm H t k w"
proof (cases "k \<in> keys_of es")
  case True
  then obtain a v where mem: "(a, k, v) \<in> set es" by (rule key_present)
  from find_entries[OF assms(1) mem] find_entries[OF assms(2) mem] show ?thesis by simp
next
  case False
  from find_node_absent[OF assms(1) False[unfolded keys_of_def]]
    find_node_absent[OF assms(2) False[unfolded keys_of_def]] assms(3)
  show ?thesis by (simp add: find_lhm_def end_lhm_def)
qed

lemma independent_after:
  assumes ne: "this \<noteq> other"
    and inv_t: "lhm_inv H w' this et'" and mt': "lhms w' this = Some mt'"
    and inv_o': "lhm_inv H w' other eo" and mo': "lhms w' other = Some mo"
    and sep': "set (footprint mt' et') \<inter> set (footprint mo eo) = {}"
    and eq: "map snd et' = map snd eo"
    and inv_o: "lhm_inv H w other eo" and mo: "lhms w other = Some mo"
  shows "iterate this w' = Some (map snd eo) \<and> iterate other w' = Some (map snd eo)
       \<and> (\<forall>k. (k \<notin> keys_of eo \<and> find_lhm H this k w' = end_lhm this w'
                  \<and> find_lhm H other k w' = end_lhm other w')
              \<or> (\<exists>it1 it2 kv. find_lhm H this k w' = Some it1 \<and> find_lhm H other k w' = Some it2
                    \<and> end_lhm this w' \<noteq> Some it1 \<and> end_lhm other w' \<noteq> Some it2
                    \<and> iterator_deref w' it1 = Some kv \<and> iterator_deref w' it2 = Some kv
                    \<and> fst kv = k))
       \<and> (\<forall>dflt xs. \<exists>w''. mutate_all H dflt this xs w' = Some w''
              \<and> iterate other w'' = Some (map snd eo) \<and> lhm_inv H w'' other eo
              \<and> lhms w'' other = lhms w other
              \<and> (\<forall>k. find_lhm H other k w'' = find_lhm H other k w))"
proof (intro conjI allI)
  show "iterate this w' = Some (map snd eo)" using iterate_spec[OF inv_t] eq by simp
  show "iterate other w' = Some (map snd eo)" using iterate_spec[OF inv_o'] by simp
next
  fix k
  from same_lookup[OF inv_t inv_o' eq, of k]
  show "(k \<notin> keys_of eo \<and> find_lhm H this k w' = end_lhm this w'
                  \<and> find_lhm H other k w' = end_lhm other w')
              \<or> (\<exists>it1 it2 kv. find_lhm H this k w' = Some it1 \<and> find_lhm H other k w' = Some it2
                    \<and> end_lhm this w' \<noteq> Some it1 \<and> end_lhm other w' \<noteq> Some it2
                    \<and> iterator_deref w' it1 = Some kv \<and> iterator_deref w' it2 = Some kv
                    \<and> fst kv = k)" .
next
  fix dflt xs
  from mutate_all_spec[OF ne inv_t mt' inv_o' mo' sep', of dflt xs] obtain w'' where
    r: "mutate_all H dflt this xs w' = Some w''" "lhm_inv H w'' other eo"
      "lhms w'' other = Some mo" by blast
  have "lhms w'' other = lhms w other" using r(3) mo by simp
  with r iterate_spec[OF r(2)] find_same[OF inv_o r(2)]
  show "\<exists>w''. mutate_all H dflt this xs w' = Some w''
              \<and> iterate other w'' = Some (map snd eo) \<and> lhm_inv H w'' other eo
              \<and> lhms w'' other = lhms w other
              \<and> (\<forall>k. find_lhm H other k w'' = find_lhm H other k w)"
    by blast
qed

text \<open>
  C7. The copy constructor, run for a new object \<open>this\<close> on a container \<open>other\<close> that
  holds the entries \<open>eo\<close>, returns; afterwards walking \<open>this\<close> and walking \<open>other\<close> yield
  the pairs of \<open>eo\<close> in the same order, \<open>find\<close> gives for every key either \<open>end()\<close> in both
  containers or cursors at equal pairs in both, and after any sequence of insertions,
  erasures, index accesses and clears on \<open>this\<close> the container \<open>other\<close> still holds \<open>eo\<close>:
  the same walk, the same object, the same result of \<open>find\<close> for every key. The same
  holds for \<^verbatim>\<open>operator=\<close> between two containers that share no node. Assigning a
  container to itself leaves the world as it was.
\<close>

theorem copy_independent:
  "(this \<noteq> other \<and> lhm_inv H w other eo \<longrightarrow>
      (\<exists>w'. linked_hashmap_copy H this other w = Some w'
         \<and> iterate other w = Some (map snd eo)
         \<and> iterate this w' = Some (map snd eo) \<and> iterate other w' = Some (map snd eo)
         \<and> (\<forall>k. (k \<notin> keys_of eo \<and> find_lhm H this k w' = end_lhm this w'
                    \<and> find_lhm H other k w' = end_lhm other w')
                \<or> (\<exists>it1 it2 kv. find_lhm H this k w' = Some it1
                      \<and> find_lhm H other k w' = Some it2
                      \<and> end_lhm this w' \<noteq> Some it1 \<and> end_lhm other w' \<noteq> Some it2
                      \<and> iterator_deref w' it1 = Some kv \<and> iterator_deref w' it2 = Some kv
                      \<and> fst kv = k))
         \<and> (\<forall>dflt xs. \<exists>w''. mutate_all H dflt this xs w' = Some w''
                \<and> iterate other w'' = Some (map snd eo) \<and> lhm_inv H w'' other eo
                \<and> lhms w'' other = lhms w other
                \<and> (\<forall>k. find_lhm H other k w'' = find_lhm H other k w))))
   \<and> (lhm_inv H w this et \<and> lhm_inv H w other eo \<and> separate w this et other eo \<longrightarrow>
      (\<exists>w'. assign H this other w = Some w'
         \<and> iterate other w = Some (map snd eo)
         \<and> iterate this w' = Some (map snd eo) \<and> iterate other w' = Some (map snd eo)
         \<and> (\<forall>k. (k \<notin> keys_of eo \<and> find_lhm H this k w' = end_lhm this w'
                    \<and> find_lhm H other k w' = end_lhm other w')
                \<or> (\<exists>it1 it2 kv. find_lhm H this k w' = Some it1
                      \<and> find_lhm H other k w' = Some it2
                      \<and> end_lhm this w' \<noteq> Some it1 \<and> end_lhm other w' \<noteq> Some it2
                      \<and> iterator_deref w' it1 = Some kv \<and> iterator_deref w' it2 = Some kv
                      \<and> fst kv = k))
         \<and> (\<forall>dflt xs. \<exists>w''. mutate_all H dflt this xs w' = Some w''
                \<and> iterate other w'' = Some (map snd eo) \<and> lhm_inv H w'' other eo
                \<and> lhms w'' other = lhms w other
                \<and> (\<forall>k. find_lhm H other k w'' = find_lhm H other k w))))
   \<and> assign H this this w = Some w"
proof (intro conjI impI)
  assume a: "this \<noteq> other \<and> lhm_inv H w other eo"
  then have ne: "this \<noteq> other" and inv_o: "lhm_inv H w other eo" by simp_all
  from inv_o obtain mo where mo: "lhms w other = Some mo" by (rule lhm_invD)
  from linked_hashmap_copy_spec[OF ne inv_o mo] obtain w' mt' et' where
    c: "linked_hashmap_copy H this other w = Some w'"
    and s: "lhm_inv H w' this et'" "map snd et' = map snd eo" "lhms w' this = Some mt'"
      "lhm_inv H w' other eo" "lhms w' other = Some mo"
      "set (footprint mt' et') \<inter> set (footprint mo eo) = {}"
    by blast
  from independent_after[OF ne s(1,3,4,5,6,2) inv_o mo] c iterate_spec[OF inv_o]
  show "\<exists>w'. linked_hashmap_copy H this other w = Some w'
         \<and> iterate other w = Some (map snd eo)
         \<and> iterate this w' = Some (map snd eo) \<and> iterate other w' = Some (map snd eo)
         \<and> (\<forall>k. (k \<notin> keys_of eo \<and> find_lhm H this k w' = end_lhm this w'
                    \<and> find_lhm H other k w' = end_lhm other w')
                \<or> (\<exists>it1 it2 kv. find_lhm H this k w' = Some it1
                      \<and> find_lhm H other k w' = Some it2
                      \<and> end_lhm this w' \<noteq> Some it1 \<and> end_lhm other w' \<noteq> Some it2
                      \<and> iterator_deref w' it1 = Some kv \<and> iterator_deref w' it2 = Some kv
                      \<and> fst kv = k))
         \<and> (\<forall>dflt xs. \<exists>w''. mutate_all H dflt this xs w' = Some w''
                \<and> iterate other w'' = Some (map snd eo) \<and> lhm_inv H w'' other eo
                \<and> lhms w'' other = lhms w other
                \<and> (\<forall>k. find_lhm H other k w'' = find_lhm H other k w))"
    by (intro exI[of _ w']) simp
next
  assume a: "lhm_inv H w this et \<and> lhm_inv H w other eo \<and> separate w this et other eo"
  then have inv_t: "lhm_inv H w this et" and inv_o: "lhm_inv H w other eo"
    and sp: "separate w this et other eo" by simp_all
  from sp obtain mt mo where ne: "this \<noteq> other" and mt: "lhms w this = Some mt"
    and mo: "lhms w other = Some mo"
    and sep: "set (footprint mt et) \<inter> set (footprint mo eo) = {}"
    unfolding separate_iff by blast
  from assign_spec[OF ne inv_t mt inv_o mo sep] obtain w' mt' et' where
    c: "assign H this other w = Some w'"
    and s: "lhm_inv H w' this et'" "map snd et' = map snd eo" "lhms w' this = Some mt'"
      "lhm_inv H w' other eo" "lhms w' other = Some mo"
      "set (footprint mt' et') \<inter> set (footprint mo eo) = {}"
    by blast
  from independent_after[OF ne s(1,3,4,5,6,2) inv_o mo] c iterate_spec[OF inv_o]
  show "\<exists>w'. assign H this other w = Some w'
         \<and> iterate other w = Some (map snd eo)
         \<and> iterate this w' = Some (map snd eo) \<and> iterate other w' = Some (map snd eo)
         \<and> (\<forall>k. (k \<notin> keys_of eo \<and> find_lhm H this k w' = end_lhm this w'
                    \<and> find_lhm H other k w' = end_lhm other w')
                \<or> (\<exists>it1 it2 kv. find_lhm H this k w' = Some it1
                      \<and> find_lhm H other k w' = Some it2
                      \<and> end_lhm this w' \<noteq> Some it1 \<and> end_lhm other w' \<noteq> Some it2
                      \<and> iterator_deref w' it1 = Some kv \<and> iterator_deref w' it2 = Some kv
                      \<and> fst kv = k))
         \<and> (\<forall>dflt xs. \<exists>w''. mutate_all H dflt this xs w' = Some w''
                \<and> iterate other w'' = Some (map snd eo) \<and> lhm_inv H w'' other eo
                \<and> lhms w'' other = lhms w other
                \<and> (\<forall>k. find_lhm H other k w'' = find_lhm H other k w))"
    by (intro exI[of _ w']) simp
next
  show "assign H this this w = Some w" by (simp add: assign_def)
qed

text \<open>
  C10. When the source \<open>other\<close> is in a reachable state (the invariant with the load
  bound), the copy constructor and \<^verbatim>\<open>operator=\<close> leave \<open>this\<close> with the table size of
  \<open>other\<close> and within the load bound. No count below the number of entries of \<open>other\<close>
  reaches the threshold of that table size, so none of the replayed insertions
  rehashes: a rehash doubles the table size.
\<close>

theorem copy_keeps_capacity:
  "(this \<noteq> other \<and> lhm_wf H w other eo \<and> lhms w other = Some mo \<longrightarrow>
      (\<exists>w' mt'. linked_hashmap_copy H this other w = Some w' \<and> lhms w' this = Some mt'
         \<and> table_size mt' = table_size mo \<and> element_count mt' = element_count mo
         \<and> load_ok mt'
         \<and> (\<forall>i < length eo. \<not> 3 * table_size mo \<le> 4 * i)))
   \<and> (lhm_inv H w this et \<and> lhm_wf H w other eo \<and> lhms w other = Some mo
        \<and> separate w this et other eo \<longrightarrow>
      (\<exists>w' mt'. assign H this other w = Some w' \<and> lhms w' this = Some mt'
         \<and> table_size mt' = table_size mo \<and> element_count mt' = element_count mo
         \<and> load_ok mt'
         \<and> (\<forall>i < length eo. \<not> 3 * table_size mo \<le> 4 * i)))"
proof (intro conjI impI)
  assume a: "this \<noteq> other \<and> lhm_wf H w other eo \<and> lhms w other = Some mo"
  then have ne: "this \<noteq> other" and wf: "lhm_wf H w other eo" and mo: "lhms w other = Some mo"
    by simp_all
  from lhm_wfD[OF wf] mo have inv_o: "lhm_inv H w other eo" and lo: "load_ok mo" by auto
  from lhm_invD'[OF inv_o mo] have cnt: "element_count mo = length eo" by blast
  from linked_hashmap_copy_spec[OF ne inv_o mo] lo obtain w' mt' et' where
    c: "linked_hashmap_copy H this other w = Some w'"
    and s: "lhm_inv H w' this et'" "map snd et' = map snd eo" "lhms w' this = Some mt'"
      "load_ok mt'" "table_size mt' = table_size mo"
    by blast
  from lhm_invD'[OF s(1,3)] have "element_count mt' = length et'" by blast
  also have "\<dots> = length eo" using s(2) by (metis length_map)
  finally have "element_count mt' = element_count mo" using cnt by simp
  moreover have "\<forall>i < length eo. \<not> 3 * table_size mo \<le> 4 * i"
    using lo cnt by (auto simp: load_ok_def)
  ultimately show "\<exists>w' mt'. linked_hashmap_copy H this other w = Some w' \<and> lhms w' this = Some mt'
         \<and> table_size mt' = table_size mo \<and> element_count mt' = element_count mo
         \<and> load_ok mt'
         \<and> (\<forall>i < length eo. \<not> 3 * table_size mo \<le> 4 * i)"
    using c s by blast
next
  assume a: "lhm_inv H w this et \<and> lhm_wf H w other eo \<and> lhms w other = Some mo
        \<and> separate w this et other eo"
  then have inv_t: "lhm_inv H w this et" and wf: "lhm_wf H w other eo"
    and mo: "lhms w other = Some mo" and sp: "separate w this et other eo" by simp_all
  from lhm_wfD[OF wf] mo have inv_o: "lhm_inv H w other eo" and lo: "load_ok mo" by auto
  from lhm_invD'[OF inv_o mo] have cnt: "element_count mo = length eo" by blast
  from sp mo obtain mt where ne: "this \<noteq> other" and mt: "lhms w this = Some mt"
    and sep: "set (footprint mt et) \<inter> set (footprint mo eo) = {}"
    unfolding separate_iff by auto
  from assign_spec[OF ne inv_t mt inv_o mo sep] lo obtain w' mt' et' where
    c: "assign H this other w = Some w'"
    and s: "lhm_inv H w' this et'" "map snd et' = map snd eo" "lhms w' this = Some mt'"
      "load_ok mt'" "table_size mt' = table_size mo"
    by blast
  from lhm_invD'[OF s(1,3)] have "element_count mt' = length et'" by blast
  also have "\<dots> = length eo" using s(2) by (metis length_map)
  finally have "element_count mt' = element_count mo" using cnt by simp
  moreover have "\<forall>i < length eo. \<not> 3 * table_size mo \<le> 4 * i"
    using lo cnt by (auto simp: load_ok_def)
  ultimately show "\<exists>w' mt'. assign H this other w = Some w' \<and> lhms w' this = Some mt'
         \<and> table_size mt' = table_size mo \<and> element_count mt' = element_count mo
         \<and> load_ok mt'
         \<and> (\<forall>i < length eo. \<not> 3 * table_size mo \<le> 4 * i)"
    using c s by blast
qed

theorem copy_independent_witness:
  "(case Option.bind (linked_hashmap 1 w_empty) (insert_all id 1 [(1, 10), (2, 20), (3, 30)]) of
      None \<Rightarrow> False
    | Some w \<Rightarrow>
        lhm_inv id w 1 [(3, 1, 10), (4, 2, 20), (5, 3, 30)]
        \<and> (\<exists>w'. linked_hashmap_copy id 2 1 w = Some w'
              \<and> iterate 2 w' = Some [(1, 10), (2, 20), (3, 30)]
              \<and> iterate 1 w' = Some [(1, 10), (2, 20), (3, 30)]
              \<and> (\<exists>w''. mutate_all id 0 2 [Erase_key 2, Insert 9 90, Index 4, Clear] w' = Some w''
                    \<and> iterate 1 w'' = Some [(1, 10), (2, 20), (3, 30)]
                    \<and> lhms w'' 1 = lhms w 1)))
   \<and> (case Option.bind (Option.bind (Option.bind (linked_hashmap 1 w_empty)
              (insert_all id 1 [(1, 10), (2, 20), (3, 30)])) (linked_hashmap 2))
              (insert_all id 2 [(7, 70)]) of
      None \<Rightarrow> False
    | Some w \<Rightarrow>
        lhm_inv id w 2 [(8, 7, 70)] \<and> lhm_inv id w 1 [(3, 1, 10), (4, 2, 20), (5, 3, 30)]
        \<and> separate w 2 [(8, 7, 70)] 1 [(3, 1, 10), (4, 2, 20), (5, 3, 30)]
        \<and> (\<exists>w'. assign id 2 1 w = Some w'
              \<and> iterate 2 w' = Some [(1, 10), (2, 20), (3, 30)]
              \<and> iterate 1 w' = Some [(1, 10), (2, 20), (3, 30)]
              \<and> (\<exists>w''. mutate_all id 0 2 [Clear, Insert 1 11] w' = Some w''
                    \<and> iterate 1 w'' = Some [(1, 10), (2, 20), (3, 30)]))
        \<and> assign id 1 1 w = Some w)"
proof -
  let ?eo = "[(3, 1, 10), (4, 2, 20), (5, 3, 30)] :: (nat, nat) entry list"
  let ?et = "[(8, 7, 70)] :: (nat, nat) entry list"
  have "case Option.bind (linked_hashmap 1 w_empty) (insert_all id 1 [(1, 10), (2, 20), (3, 30)]) of
     None \<Rightarrow> False | Some w \<Rightarrow> lhm_inv id w 1 ?eo"
    by code_simp
  then obtain w where w: "Option.bind (linked_hashmap 1 w_empty)
      (insert_all id 1 [(1, 10), (2, 20), (3, 30)]) = Some w" "lhm_inv id w 1 ?eo"
    by (auto split: option.splits)
  have ne: "(2::nat) \<noteq> 1" by simp
  from copy_independent[where this = 2 and other = 1 and H = id and w = w and eo = ?eo
      and et = "[]"] ne w(2)
  obtain w' where w': "linked_hashmap_copy id 2 1 w = Some w'"
    "iterate 2 w' = Some (map snd ?eo)" "iterate 1 w' = Some (map snd ?eo)"
    "\<forall>dflt xs. \<exists>w''. mutate_all id dflt 2 xs w' = Some w''
                \<and> iterate 1 w'' = Some (map snd ?eo) \<and> lhm_inv id w'' 1 ?eo
                \<and> lhms w'' 1 = lhms w 1
                \<and> (\<forall>k. find_lhm id 1 k w'' = find_lhm id 1 k w)"
    by blast
  from w'(4) obtain w'' where
    "mutate_all id 0 2 [Erase_key 2, Insert 9 90, Index 4, Clear] w' = Some w''"
    "iterate 1 w'' = Some (map snd ?eo)" "lhms w'' 1 = lhms w 1" by blast
  with w' have first: "\<exists>w'. linked_hashmap_copy id 2 1 w = Some w'
              \<and> iterate 2 w' = Some [(1, 10), (2, 20), (3, 30)]
              \<and> iterate 1 w' = Some [(1, 10), (2, 20), (3, 30)]
              \<and> (\<exists>w''. mutate_all id 0 2 [Erase_key 2, Insert 9 90, Index 4, Clear] w' = Some w''
                    \<and> iterate 1 w'' = Some [(1, 10), (2, 20), (3, 30)]
                    \<and> lhms w'' 1 = lhms w 1)"
    by auto
  have "case Option.bind (Option.bind (Option.bind (linked_hashmap 1 w_empty)
              (insert_all id 1 [(1, 10), (2, 20), (3, 30)])) (linked_hashmap 2))
              (insert_all id 2 [(7, 70)]) of
      None \<Rightarrow> False
    | Some w \<Rightarrow> lhm_inv id w 2 ?et \<and> lhm_inv id w 1 ?eo \<and> separate w 2 ?et 1 ?eo"
    by code_simp
  then obtain u where u: "Option.bind (Option.bind (Option.bind (linked_hashmap 1 w_empty)
              (insert_all id 1 [(1, 10), (2, 20), (3, 30)])) (linked_hashmap 2))
              (insert_all id 2 [(7, 70)]) = Some u"
    "lhm_inv id u 2 ?et" "lhm_inv id u 1 ?eo" "separate u 2 ?et 1 ?eo"
    by (auto split: option.splits)
  from copy_independent[where this = 2 and other = 1 and H = id and w = u and eo = ?eo
      and et = ?et] u(2,3,4)
  obtain u' where u': "assign id 2 1 u = Some u'"
    "iterate 2 u' = Some (map snd ?eo)" "iterate 1 u' = Some (map snd ?eo)"
    "\<forall>dflt xs. \<exists>w''. mutate_all id dflt 2 xs u' = Some w''
                \<and> iterate 1 w'' = Some (map snd ?eo) \<and> lhm_inv id w'' 1 ?eo
                \<and> lhms w'' 1 = lhms u 1
                \<and> (\<forall>k. find_lhm id 1 k w'' = find_lhm id 1 k u)"
    by blast
  from u'(4) obtain u'' where
    "mutate_all id 0 2 [Clear, Insert 1 11] u' = Some u''"
    "iterate 1 u'' = Some (map snd ?eo)" by blast
  with u' have second: "\<exists>w'. assign id 2 1 u = Some w'
              \<and> iterate 2 w' = Some [(1, 10), (2, 20), (3, 30)]
              \<and> iterate 1 w' = Some [(1, 10), (2, 20), (3, 30)]
              \<and> (\<exists>w''. mutate_all id 0 2 [Clear, Insert 1 11] w' = Some w''
                    \<and> iterate 1 w'' = Some [(1, 10), (2, 20), (3, 30)])"
    by auto
  from copy_independent[where this = 1 and other = 1 and H = id and w = u and eo = ?eo
      and et = ?et]
  have third: "assign id 1 1 u = Some u" by blast
  from first second third w u show ?thesis by simp
qed

theorem copy_keeps_capacity_witness:
  "(case Option.bind (linked_hashmap 1 w_empty)
          (insert_all id 1 [(1, 10), (2, 20), (3, 30), (4, 40), (5, 50), (6, 60), (7, 70),
             (8, 80), (9, 90), (10, 100), (11, 110), (12, 120)]) of
      None \<Rightarrow> False
    | Some w \<Rightarrow>
        (case lhms w 1 of
           None \<Rightarrow> False
         | Some mo \<Rightarrow>
             lhm_wf id w 1 [(3, 1, 10), (4, 2, 20), (5, 3, 30), (6, 4, 40), (7, 5, 50),
               (8, 6, 60), (9, 7, 70), (10, 8, 80), (11, 9, 90), (12, 10, 100), (13, 11, 110),
               (14, 12, 120)]
             \<and> table_size mo = 16 \<and> element_count mo = 12
             \<and> (\<exists>w' mt'. linked_hashmap_copy id 2 1 w = Some w' \<and> lhms w' 2 = Some mt'
                   \<and> table_size mt' = 16 \<and> element_count mt' = 12)))
   \<and> (case Option.bind (Option.bind (Option.bind (linked_hashmap 1 w_empty)
              (insert_all id 1 [(1, 10), (2, 20), (3, 30)])) (linked_hashmap 2))
              (insert_all id 2 [(7, 70)]) of
      None \<Rightarrow> False
    | Some w \<Rightarrow>
        (case lhms w 1 of
           None \<Rightarrow> False
         | Some mo \<Rightarrow>
             lhm_inv id w 2 [(8, 7, 70)] \<and> lhm_wf id w 1 [(3, 1, 10), (4, 2, 20), (5, 3, 30)]
             \<and> separate w 2 [(8, 7, 70)] 1 [(3, 1, 10), (4, 2, 20), (5, 3, 30)]
             \<and> table_size mo = 16 \<and> element_count mo = 3
             \<and> (\<exists>w' mt'. assign id 2 1 w = Some w' \<and> lhms w' 2 = Some mt'
                   \<and> table_size mt' = 16 \<and> element_count mt' = 3)))"
proof -
  let ?e12 = "[(3, 1, 10), (4, 2, 20), (5, 3, 30), (6, 4, 40), (7, 5, 50),
               (8, 6, 60), (9, 7, 70), (10, 8, 80), (11, 9, 90), (12, 10, 100), (13, 11, 110),
               (14, 12, 120)] :: (nat, nat) entry list"
  let ?eo = "[(3, 1, 10), (4, 2, 20), (5, 3, 30)] :: (nat, nat) entry list"
  let ?et = "[(8, 7, 70)] :: (nat, nat) entry list"
  have "case Option.bind (linked_hashmap 1 w_empty)
          (insert_all id 1 [(1, 10), (2, 20), (3, 30), (4, 40), (5, 50), (6, 60), (7, 70),
             (8, 80), (9, 90), (10, 100), (11, 110), (12, 120)]) of
      None \<Rightarrow> False
    | Some w \<Rightarrow> (case lhms w 1 of None \<Rightarrow> False | Some mo \<Rightarrow>
         lhm_wf id w 1 ?e12 \<and> table_size mo = 16 \<and> element_count mo = 12)"
    by code_simp
  then obtain w mo where w: "Option.bind (linked_hashmap 1 w_empty)
          (insert_all id 1 [(1, 10), (2, 20), (3, 30), (4, 40), (5, 50), (6, 60), (7, 70),
             (8, 80), (9, 90), (10, 100), (11, 110), (12, 120)]) = Some w"
    "lhms w 1 = Some mo" "lhm_wf id w 1 ?e12" "table_size mo = 16" "element_count mo = 12"
    by (auto split: option.splits)
  have ne: "(2::nat) \<noteq> 1" by simp
  from copy_keeps_capacity[where this = 2 and other = 1 and H = id and w = w and eo = ?e12
      and mo = mo and et = "[]"] ne w(2,3,4,5)
  have first: "\<exists>w' mt'. linked_hashmap_copy id 2 1 w = Some w' \<and> lhms w' 2 = Some mt'
                   \<and> table_size mt' = 16 \<and> element_count mt' = 12"
    by auto
  have "case Option.bind (Option.bind (Option.bind (linked_hashmap 1 w_empty)
              (insert_all id 1 [(1, 10), (2, 20), (3, 30)])) (linked_hashmap 2))
              (insert_all id 2 [(7, 70)]) of
      None \<Rightarrow> False
    | Some w \<Rightarrow> (case lhms w 1 of None \<Rightarrow> False | Some mo \<Rightarrow>
         lhm_inv id w 2 ?et \<and> lhm_wf id w 1 ?eo \<and> separate w 2 ?et 1 ?eo
         \<and> table_size mo = 16 \<and> element_count mo = 3)"
    by code_simp
  then obtain u uo where u: "Option.bind (Option.bind (Option.bind (linked_hashmap 1 w_empty)
              (insert_all id 1 [(1, 10), (2, 20), (3, 30)])) (linked_hashmap 2))
              (insert_all id 2 [(7, 70)]) = Some u"
    "lhms u 1 = Some uo" "lhm_inv id u 2 ?et" "lhm_wf id u 1 ?eo" "separate u 2 ?et 1 ?eo"
    "table_size uo = 16" "element_count uo = 3"
    by (auto split: option.splits)
  from copy_keeps_capacity[where this = 2 and other = 1 and H = id and w = u and eo = ?eo
      and mo = uo and et = ?et] u(2-)
  have second: "\<exists>w' mt'. assign id 2 1 u = Some w' \<and> lhms w' 2 = Some mt'
                   \<and> table_size mt' = 16 \<and> element_count mt' = 3"
    by auto
  from first second w u show ?thesis by simp
qed

text \<open>
  C3. A default-constructed container has table size 16. In a reachable state (the
  invariant with the load bound) every insertion returns and leaves
  \<open>4 * element_count \<le> 3 * table_size\<close>, that is \<open>element_count \<le> table_size * 0.75\<close>.
  An insertion of a new key leaves the table size doubled if
  \<open>3 * table_size \<le> 4 * element_count\<close> held before, and unchanged otherwise; in the first
  case it is the insertion into the rehashed container, and the rehash changes no node.
  Every state that insertions, erasures, index accesses and clears reach from a
  default-constructed container is such a reachable state.
\<close>

theorem load_factor_invariant:
  "(\<exists>w' m'. linked_hashmap this w0 = Some w' \<and> lhms w' this = Some m' \<and> table_size m' = 16
       \<and> lhm_wf H w' this []
       \<and> (\<forall>dflt xs. \<exists>w'' m'' es''. mutate_all H dflt this xs w' = Some w''
              \<and> lhms w'' this = Some m'' \<and> lhm_wf H w'' this es''
              \<and> 4 * element_count m'' \<le> 3 * table_size m''))
   \<and> (lhm_wf H w this es \<and> lhms w this = Some m \<longrightarrow>
        (\<exists>r w' m' es'. insert_lhm H this kv w = Some (r, w') \<and> lhms w' this = Some m'
            \<and> lhm_wf H w' this es'
            \<and> 4 * element_count m' \<le> 3 * table_size m'
            \<and> (fst kv \<notin> keys_of es \<longrightarrow>
                 table_size m' = (if 3 * table_size m \<le> 4 * element_count m
                                  then 2 * table_size m else table_size m)
                 \<and> element_count m' = element_count m + 1
                 \<and> es' = es @ [(it_node (fst r), kv)])))
   \<and> (lhm_wf H w this es \<and> lhms w this = Some m \<and> fst kv \<notin> keys_of es
        \<and> 3 * table_size m \<le> 4 * element_count m \<longrightarrow>
        (\<exists>w1 m1. rehash H this w = Some w1 \<and> nodes w1 = nodes w \<and> last_alloc w1 = last_alloc w
            \<and> lhms w1 this = Some m1 \<and> table_size m1 = 2 * table_size m
            \<and> element_count m1 = element_count m \<and> lhm_inv H w1 this es
            \<and> \<not> 3 * table_size m1 \<le> 4 * element_count m1
            \<and> insert_lhm H this kv w = insert_lhm H this kv w1))"
proof (intro conjI impI)
  from linked_hashmap_wf[of this w0 H] obtain w' m' where
    c: "linked_hashmap this w0 = Some w'" "lhm_wf H w' this []" "lhms w' this = Some m'"
      "table_size m' = 16" by blast
  have "\<exists>w'' m'' es''. mutate_all H dflt this xs w' = Some w''
              \<and> lhms w'' this = Some m'' \<and> lhm_wf H w'' this es''
              \<and> 4 * element_count m'' \<le> 3 * table_size m''" for dflt xs
  proof -
    from mutate_all_wf[OF c(2), of dflt xs] obtain w'' m'' es'' where
      r: "mutate_all H dflt this xs w' = Some w''" "lhms w'' this = Some m''"
        "lhm_wf H w'' this es''" by blast
    from lhm_wfD(2)[OF r(3)] r(2) have "4 * element_count m'' \<le> 3 * table_size m''"
      by (auto simp: load_ok_def)
    with r show ?thesis by blast
  qed
  with c show "\<exists>w' m'. linked_hashmap this w0 = Some w' \<and> lhms w' this = Some m' \<and> table_size m' = 16
       \<and> lhm_wf H w' this []
       \<and> (\<forall>dflt xs. \<exists>w'' m'' es''. mutate_all H dflt this xs w' = Some w''
              \<and> lhms w'' this = Some m'' \<and> lhm_wf H w'' this es''
              \<and> 4 * element_count m'' \<le> 3 * table_size m'')" by blast
next
  assume a: "lhm_wf H w this es \<and> lhms w this = Some m"
  then have wf: "lhm_wf H w this es" and m: "lhms w this = Some m" by simp_all
  from insert_wf[OF wf m, of kv] obtain r w' m' es' where
    i: "insert_lhm H this kv w = Some (r, w')" "lhms w' this = Some m'"
      "lhm_wf H w' this es'"
      "fst kv \<notin> keys_of es \<longrightarrow>
                table_size m' = (if load_factor_reached m then 2 * table_size m else table_size m)
                \<and> element_count m' = element_count m + 1
                \<and> es' = es @ [(it_node (fst r), kv)] \<and> snd r = True
                \<and> it_node (fst r) = Suc (last_alloc w)"
    by blast
  from lhm_wfD(2)[OF i(3)] i(2) have "4 * element_count m' \<le> 3 * table_size m'"
    by (auto simp: load_ok_def)
  with i show "\<exists>r w' m' es'. insert_lhm H this kv w = Some (r, w') \<and> lhms w' this = Some m'
            \<and> lhm_wf H w' this es'
            \<and> 4 * element_count m' \<le> 3 * table_size m'
            \<and> (fst kv \<notin> keys_of es \<longrightarrow>
                 table_size m' = (if 3 * table_size m \<le> 4 * element_count m
                                  then 2 * table_size m else table_size m)
                 \<and> element_count m' = element_count m + 1
                 \<and> es' = es @ [(it_node (fst r), kv)])"
    unfolding load_factor_reached_def by blast
next
  assume a: "lhm_wf H w this es \<and> lhms w this = Some m \<and> fst kv \<notin> keys_of es
        \<and> 3 * table_size m \<le> 4 * element_count m"
  then have wf: "lhm_wf H w this es" and m: "lhms w this = Some m"
    and abs: "fst kv \<notin> keys_of es" and reached: "load_factor_reached m"
    by (simp_all add: load_factor_reached_def)
  from lhm_wfD[OF wf] have inv: "lhm_inv H w this es" by simp
  from rehash_spec[OF inv m] obtain t' where
    r: "rehash H this w = Some (set_lhm this (m\<lparr>table := Some t', table_size := 2 * table_size m\<rparr>) w)"
    and inv1: "lhm_inv H (set_lhm this (m\<lparr>table := Some t', table_size := 2 * table_size m\<rparr>) w) this es"
    by blast
  let ?m1 = "m\<lparr>table := Some t', table_size := 2 * table_size m\<rparr>"
  let ?w1 = "set_lhm this ?m1 w"
  have pos: "0 < table_size m" using inv m by (rule lhm_inv_size_pos)
  from lhm_wfD(2)[OF wf] m have "4 * element_count m \<le> 3 * table_size m"
    by (auto simp: load_ok_def)
  with pos have nr: "\<not> load_factor_reached ?m1" by (simp add: load_factor_reached_def)
  have f0: "find_node H this (fst kv) w = Some nullptr"
    using inv abs[unfolded keys_of_def] by (rule find_node_absent)
  have f1: "find_node H this (fst kv) ?w1 = Some nullptr"
    using inv1 abs[unfolded keys_of_def] by (rule find_node_absent)
  have eq: "insert_lhm H this kv w = insert_lhm H this kv ?w1"
    using f0 f1 m reached nr r by (simp add: insert_lhm_def)
  show "\<exists>w1 m1. rehash H this w = Some w1 \<and> nodes w1 = nodes w \<and> last_alloc w1 = last_alloc w
            \<and> lhms w1 this = Some m1 \<and> table_size m1 = 2 * table_size m
            \<and> element_count m1 = element_count m \<and> lhm_inv H w1 this es
            \<and> \<not> 3 * table_size m1 \<le> 4 * element_count m1
            \<and> insert_lhm H this kv w = insert_lhm H this kv w1"
    using r inv1 nr eq
    by (intro exI[of _ ?w1] exI[of _ ?m1]) (simp add: load_factor_reached_def)
qed

theorem load_factor_invariant_witness:
  "case Option.bind (linked_hashmap 1 w_empty)
          (insert_all id 1 [(1, 10), (2, 20), (3, 30), (4, 40), (5, 50), (6, 60), (7, 70),
             (8, 80), (9, 90), (10, 100), (11, 110), (12, 120)]) of
     None \<Rightarrow> False
   | Some w \<Rightarrow>
       (case lhms w 1 of
          None \<Rightarrow> False
        | Some m \<Rightarrow>
            lhm_wf id w 1 [(3, 1, 10), (4, 2, 20), (5, 3, 30), (6, 4, 40), (7, 5, 50), (8, 6, 60),
              (9, 7, 70), (10, 8, 80), (11, 9, 90), (12, 10, 100), (13, 11, 110), (14, 12, 120)]
            \<and> table_size m = 16 \<and> element_count m = 12
            \<and> (\<exists>r w' m'. insert_lhm id 1 (13, 130) w = Some (r, w') \<and> lhms w' 1 = Some m'
                  \<and> table_size m' = 32 \<and> element_count m' = 13
                  \<and> 4 * element_count m' \<le> 3 * table_size m')
            \<and> (\<exists>w1 m1. rehash id 1 w = Some w1 \<and> nodes w1 = nodes w \<and> lhms w1 1 = Some m1
                  \<and> table_size m1 = 32
                  \<and> insert_lhm id 1 (13, 130) w = insert_lhm id 1 (13, 130) w1))"
proof -
  let ?es = "[(3, 1, 10), (4, 2, 20), (5, 3, 30), (6, 4, 40), (7, 5, 50), (8, 6, 60),
          (9, 7, 70), (10, 8, 80), (11, 9, 90), (12, 10, 100), (13, 11, 110), (14, 12, 120)]
          :: (nat, nat) entry list"
  have "case Option.bind (linked_hashmap 1 w_empty)
          (insert_all id 1 [(1, 10), (2, 20), (3, 30), (4, 40), (5, 50), (6, 60), (7, 70),
             (8, 80), (9, 90), (10, 100), (11, 110), (12, 120)]) of
     None \<Rightarrow> False
   | Some w \<Rightarrow> (case lhms w 1 of None \<Rightarrow> False | Some m \<Rightarrow>
        lhm_wf id w 1 ?es \<and> table_size m = 16 \<and> element_count m = 12)"
    by code_simp
  then obtain w m where w: "Option.bind (linked_hashmap 1 w_empty)
          (insert_all id 1 [(1, 10), (2, 20), (3, 30), (4, 40), (5, 50), (6, 60), (7, 70),
             (8, 80), (9, 90), (10, 100), (11, 110), (12, 120)]) = Some w"
    "lhms w 1 = Some m" "lhm_wf id w 1 ?es" "table_size m = 16" "element_count m = 12"
    by (auto split: option.splits)
  have abs: "fst (13::nat, 130::nat) \<notin> keys_of ?es" by (simp add: keys_of_def)
  note th = load_factor_invariant[where H = id and w = w and this = 1 and es = ?es and m = m
      and kv = "(13, 130)" and ?w0.0 = w_empty]
  from th[THEN conjunct2, THEN conjunct1] w abs
  have 1: "\<exists>r w' m'. insert_lhm id 1 (13, 130) w = Some (r, w') \<and> lhms w' 1 = Some m'
                  \<and> table_size m' = 32 \<and> element_count m' = 13
                  \<and> 4 * element_count m' \<le> 3 * table_size m'"
    by simp blast
  from th[THEN conjunct2, THEN conjunct2] w abs
  have 2: "\<exists>w1 m1. rehash id 1 w = Some w1 \<and> nodes w1 = nodes w \<and> lhms w1 1 = Some m1
                  \<and> table_size m1 = 32
                  \<and> insert_lhm id 1 (13, 130) w = insert_lhm id 1 (13, 130) w1"
    by simp blast
  from 1 2 w show ?thesis by simp
qed

end
